theory Spec2Isabelle
  imports Main "HOL-Library.AList"
begin

section \<open>Values, records and the store\<close>

text \<open>
  The relation engine of \<^verbatim>\<open>src/graph.js\<close> works on caller-owned JavaScript objects
  ("nodes") whose relation fields hold arrays of node references.  Nodes are shared between
  relation lists and \<^verbatim>\<open>remove\<close> splices arrays in place, so both kinds of object live in an
  explicit store and values refer to them by address.

  Modelling boundary: numbers are integers (no \<^verbatim>\<open>NaN\<close>), primitive strings are left out of
  \<open>val\<close> (nothing in the engine inspects one except through \<^verbatim>\<open>===\<close>), properties
  inherited from a prototype are not modelled, arrays are dense and carry no named
  properties, and a predicate filter is a pure total function of the store and the candidate.
\<close>

datatype val = Undefined | Null | Boolean bool | Number int | ObjRef nat | ArrRef nat

type_synonym obj = "(string \<times> val) list"

record heap =
  objs :: "obj list"
  arrs :: "val list list"

datatype error = TypeError

text \<open>
  An operation that writes to the store either returns the new store or throws; a thrown
  error comes with the store as it stood at the fault, since nothing is rolled back.
\<close>

type_synonym 'a outcome = "(error \<times> 'a) + 'a"

definition thrown :: "'a outcome \<Rightarrow> error option" where
  "thrown r = (case r of Inl (e, s) \<Rightarrow> Some e | Inr s \<Rightarrow> None)"

definition left_behind :: "'a outcome \<Rightarrow> 'a" where
  "left_behind r = (case r of Inl (e, s) \<Rightarrow> s | Inr s \<Rightarrow> s)"

text \<open>\<^verbatim>\<open>o[k]\<close> on a plain record: an absent key reads as \<^verbatim>\<open>undefined\<close>.\<close>

definition lookup :: "obj \<Rightarrow> string \<Rightarrow> val" where
  "lookup ob k = (case map_of ob k of None \<Rightarrow> Undefined | Some v \<Rightarrow> v)"

text \<open>\<^verbatim>\<open>Object.keys(o)\<close>: the own keys in enumeration order.\<close>

definition Object_keys :: "obj \<Rightarrow> string list" where
  "Object_keys ob = map fst ob"

text \<open>\<^verbatim>\<open>a === b\<close>: on the values of the model strict equality is identity.\<close>

definition strict_eq :: "val \<Rightarrow> val \<Rightarrow> bool" where
  "strict_eq a b = (a = b)"

text \<open>
  \<^verbatim>\<open>v[k]\<close> for an arbitrary value: indexing \<^verbatim>\<open>undefined\<close> or \<^verbatim>\<open>null\<close> throws a TypeError,
  a number or boolean has no such property, an object reference reads the record in the
  store.  A reference outside the store has no counterpart in JavaScript; the model faults
  on it.
\<close>

definition get_prop :: "heap \<Rightarrow> val \<Rightarrow> string \<Rightarrow> error + val" where
  "get_prop h v k =
     (case v of
        Undefined \<Rightarrow> Inl TypeError
      | Null \<Rightarrow> Inl TypeError
      | ObjRef a \<Rightarrow> (if a < length (objs h) then Inr (lookup (objs h ! a) k) else Inl TypeError)
      | _ \<Rightarrow> Inr Undefined)"

text \<open>The contents of the array a value refers to, if it refers to one.\<close>

definition array_of :: "heap \<Rightarrow> val \<Rightarrow> val list option" where
  "array_of h v =
     (case v of
        ArrRef b \<Rightarrow> (if b < length (arrs h) then Some (arrs h ! b) else None)
      | _ \<Rightarrow> None)"

section \<open>resembles\<close>

text \<open>
  \<^verbatim>\<open>keys[key]\<close>: past the end of the array the read yields \<^verbatim>\<open>undefined\<close>, which as a
  property name is the string \<^verbatim>\<open>"undefined"\<close>.
\<close>

definition key_name :: "string list \<Rightarrow> nat \<Rightarrow> string" where
  "key_name keys key = (if key < length keys then keys ! key else ''undefined'')"

text \<open>
  The inner function \<^verbatim>\<open>check\<close> of \<^verbatim>\<open>resembles\<close>; the closure variable \<^verbatim>\<open>key\<close> is the last
  argument:
  \<^verbatim>\<open>if (self[keys[key]] === obj[keys[key]]) { key += 1; return (key <= len) ? check() : true; }
  return false;\<close>
\<close>

function check :: "obj \<Rightarrow> obj \<Rightarrow> string list \<Rightarrow> nat \<Rightarrow> bool" where
  "check self ob keys key =
     (if strict_eq (lookup self (key_name keys key)) (lookup ob (key_name keys key))
      then (if key + 1 \<le> length keys then check self ob keys (key + 1) else True)
      else False)"
  by pat_completeness auto
termination
  by (relation "measure (\<lambda>(self, ob, keys, key). length keys + 1 - key)") auto

declare check.simps [simp del]

definition resembles :: "obj \<Rightarrow> obj \<Rightarrow> bool" where
  "resembles self ob = check self ob (Object_keys self) 0"

section \<open>The filter of a query\<close>

text \<open>
  \<^verbatim>\<open>filter = filter || {}\<close>, then a function is used as it is and anything else is matched
  structurally by \<^verbatim>\<open>resembles\<close>.
\<close>

datatype filt = NoFilter | Structural obj | Predicate "heap \<Rightarrow> val \<Rightarrow> bool"

text \<open>
  The candidate as \<^verbatim>\<open>resembles\<close> reads it: \<^verbatim>\<open>obj[...]\<close> throws on \<^verbatim>\<open>undefined\<close> and
  \<^verbatim>\<open>null\<close>; numbers, booleans and arrays have none of the filter's properties.
\<close>

definition as_record :: "heap \<Rightarrow> val \<Rightarrow> error + obj" where
  "as_record h v =
     (case v of
        Undefined \<Rightarrow> Inl TypeError
      | Null \<Rightarrow> Inl TypeError
      | ObjRef a \<Rightarrow> (if a < length (objs h) then Inr (objs h ! a) else Inl TypeError)
      | _ \<Rightarrow> Inr [])"

definition filterFn :: "heap \<Rightarrow> filt \<Rightarrow> val \<Rightarrow> error + bool" where
  "filterFn h flt child =
     (case flt of
        Predicate p \<Rightarrow> Inr (p h child)
      | Structural self \<Rightarrow>
          (case as_record h child of Inl e \<Rightarrow> Inl e | Inr ob \<Rightarrow> Inr (resembles self ob))
      | NoFilter \<Rightarrow>
          (case as_record h child of Inl e \<Rightarrow> Inl e | Inr ob \<Rightarrow> Inr (resembles [] ob)))"

text \<open>\<^verbatim>\<open>array.filter(filterFn)\<close>: the elements in order; a throwing callback aborts it.\<close>

fun filter_arr :: "heap \<Rightarrow> filt \<Rightarrow> val list \<Rightarrow> error + val list" where
  "filter_arr h flt [] = Inr []"
| "filter_arr h flt (x # xs) =
     (case filterFn h flt x of
        Inl e \<Rightarrow> Inl e
      | Inr b \<Rightarrow>
          (case filter_arr h flt xs of
             Inl e \<Rightarrow> Inl e
           | Inr ys \<Rightarrow> Inr (if b then x # ys else ys)))"

section \<open>get\<close>

text \<open>
  \<^verbatim>\<open>node[relation].filter(filterFn)\<close>, the first statement of the loop body: the direct
  matches of one node.  Reading the field of \<^verbatim>\<open>undefined\<close>/\<^verbatim>\<open>null\<close> and calling
  \<^verbatim>\<open>filter\<close> on a value that is not an array throw a TypeError.
\<close>

definition direct_matches :: "heap \<Rightarrow> string \<Rightarrow> filt \<Rightarrow> val \<Rightarrow> error + val list" where
  "direct_matches h relation flt node =
     (case get_prop h node relation of
        Inl e \<Rightarrow> Inl e
      | Inr cur \<Rightarrow>
          (case array_of h cur of
             None \<Rightarrow> Inl TypeError
           | Some rel \<Rightarrow> filter_arr h flt rel))"

text \<open>
  \<^verbatim>\<open>generations\<close> is \<^verbatim>\<open>undefined\<close> (\<open>None\<close>) or a number.
  \<^verbatim>\<open>nextGen = (generations > 0 || generations === undefined) ? get : function () {return [];}\<close>
  and the recursive call receives \<^verbatim>\<open>generations && generations - 1\<close>.
\<close>

definition recurses :: "int option \<Rightarrow> bool" where
  "recurses generations = (case generations of None \<Rightarrow> True | Some g \<Rightarrow> g > 0)"

definition next_generations :: "int option \<Rightarrow> int option" where
  "next_generations generations =
     (case generations of None \<Rightarrow> None | Some g \<Rightarrow> if g = 0 then Some 0 else Some (g - 1))"

text \<open>
  The inner function \<^verbatim>\<open>get(nodes, generations)\<close> with its \<^verbatim>\<open>forEach\<close> loop: \<open>nodes\<close> is
  what is left of the array, \<open>filtered\<close> the local variable of that name.  The query writes
  nothing to the store, so the arrays are read once.  The loop body is
  \<^verbatim>\<open>filtered = node[relation].filter(filterFn);
  filtered = filtered.concat(nextGen(node[relation], generations && generations - 1));\<close>
  A query that does not return (unbounded depth over a cycle) has the value \<open>None\<close>.
\<close>

partial_function (option) get_rec ::
  "heap \<Rightarrow> string \<Rightarrow> filt \<Rightarrow> int option \<Rightarrow> val list \<Rightarrow> val list \<Rightarrow> (error + val list) option"
where
  "get_rec h relation flt generations nodes filtered =
     (case nodes of
        [] \<Rightarrow> Some (Inr filtered)
      | node # rest \<Rightarrow>
          (case get_prop h node relation of
             Inl e \<Rightarrow> Some (Inl e)
           | Inr cur \<Rightarrow>
               (case array_of h cur of
                  None \<Rightarrow> Some (Inl TypeError)
                | Some rel \<Rightarrow>
                    (case filter_arr h flt rel of
                       Inl e \<Rightarrow> Some (Inl e)
                     | Inr matches \<Rightarrow>
                         (if recurses generations
                          then Option.bind
                                 (get_rec h relation flt (next_generations generations) rel [])
                                 (\<lambda>r. case r of
                                    Inl e \<Rightarrow> Some (Inl e)
                                  | Inr deeper \<Rightarrow>
                                      get_rec h relation flt generations rest (matches @ deeper))
                          else get_rec h relation flt generations rest (matches @ []))))))"

declare get_rec.simps [code]

definition get ::
  "val \<Rightarrow> string \<Rightarrow> filt \<Rightarrow> int option \<Rightarrow> heap \<Rightarrow> (error + val list) option"
where
  "get nodes relation flt generations h =
     (case array_of h nodes of
        None \<Rightarrow> Some (Inl TypeError)
      | Some ns \<Rightarrow> get_rec h relation flt generations ns [])"

section \<open>Array iteration\<close>

text \<open>
  \<^verbatim>\<open>array.forEach(callback)\<close>: the length is read once, then each index below it is
  visited if the array still has it at that moment, on the store as the earlier callbacks
  left it.  \<open>forEach_from f b k n\<close> is the loop at index \<open>k\<close> with \<open>n\<close> indices to go.
\<close>

primrec forEach_from ::
  "(val \<Rightarrow> heap \<Rightarrow> heap outcome) \<Rightarrow> nat \<Rightarrow> nat \<Rightarrow> nat \<Rightarrow> heap \<Rightarrow> heap outcome"
where
  "forEach_from f b k 0 h = Inr h"
| "forEach_from f b k (Suc n) h =
     (if b < length (arrs h) \<and> k < length (arrs h ! b)
      then (case f (arrs h ! b ! k) h of
              Inl e \<Rightarrow> Inl e
            | Inr h' \<Rightarrow> forEach_from f b (Suc k) n h')
      else forEach_from f b (Suc k) n h)"

definition forEach :: "val \<Rightarrow> (val \<Rightarrow> heap \<Rightarrow> heap outcome) \<Rightarrow> heap \<Rightarrow> heap outcome" where
  "forEach arr f h =
     (case arr of
        ArrRef b \<Rightarrow>
          (if b < length (arrs h) then forEach_from f b 0 (length (arrs h ! b)) h
           else Inl (TypeError, h))
      | _ \<Rightarrow> Inl (TypeError, h))"

section \<open>add\<close>

text \<open>\<^verbatim>\<open>xs.concat(v)\<close> spreads an array argument and appends any other value as it is.\<close>

definition concat_arg :: "heap \<Rightarrow> val \<Rightarrow> val list" where
  "concat_arg h v = (case array_of h v of Some ys \<Rightarrow> ys | None \<Rightarrow> [v])"

text \<open>
  The callback of \<^verbatim>\<open>add\<close>: \<^verbatim>\<open>node[relation] = node[relation].concat(relatedNodes)\<close>.
  Reading the field of \<^verbatim>\<open>undefined\<close>/\<^verbatim>\<open>null\<close> and calling \<^verbatim>\<open>concat\<close> on a value that is
  not an array throw a TypeError; otherwise a new array is allocated and stored in the field
  (an existing key keeps its place, a new key goes last).
\<close>

definition add_node :: "string \<Rightarrow> val \<Rightarrow> val \<Rightarrow> heap \<Rightarrow> heap outcome" where
  "add_node relation relatedNodes node h =
     (case get_prop h node relation of
        Inl e \<Rightarrow> Inl (e, h)
      | Inr cur \<Rightarrow>
          (case array_of h cur of
             None \<Rightarrow> Inl (TypeError, h)
           | Some xs \<Rightarrow>
               (case node of
                  ObjRef a \<Rightarrow>
                    Inr (h\<lparr>objs := (objs h)[a := AList.update relation (ArrRef (length (arrs h)))
                                                  (objs h ! a)],
                           arrs := arrs h @ [xs @ concat_arg h relatedNodes]\<rparr>)
                | _ \<Rightarrow> Inl (TypeError, h))))"

text \<open>\<^verbatim>\<open>add(nodes, relation, relatedNodes)\<close>; the value returned is \<^verbatim>\<open>nodes\<close> itself.\<close>

definition add :: "val \<Rightarrow> string \<Rightarrow> val \<Rightarrow> heap \<Rightarrow> heap outcome" where
  "add nodes relation relatedNodes h = forEach nodes (add_node relation relatedNodes) h"

section \<open>remove\<close>

text \<open>\<^verbatim>\<open>xs.indexOf(x)\<close>: the first index holding a value strictly equal to \<open>x\<close>, else -1.\<close>

fun indexOf_from :: "val list \<Rightarrow> val \<Rightarrow> int \<Rightarrow> int" where
  "indexOf_from [] x i = - 1"
| "indexOf_from (y # ys) x i = (if strict_eq y x then i else indexOf_from ys x (i + 1))"

definition indexOf :: "val list \<Rightarrow> val \<Rightarrow> int" where
  "indexOf xs x = indexOf_from xs x 0"

text \<open>
  \<^verbatim>\<open>xs.splice(start, deleteCount)\<close>, the contents afterwards: a negative \<open>start\<close> counts
  from the end, and at most the elements from there to the end are deleted.
\<close>

definition splice :: "val list \<Rightarrow> int \<Rightarrow> int \<Rightarrow> val list" where
  "splice xs start deleteCount =
     (let len = int (length xs);
          s = (if start < 0 then max (len + start) 0 else min start len);
          d = min (max deleteCount 0) (len - s)
      in take (nat s) xs @ drop (nat (s + d)) xs)"

text \<open>
  The inner callback of \<^verbatim>\<open>remove\<close>:
  \<^verbatim>\<open>node[relation].splice(node[relation].indexOf(relatedNode), 1)\<close>, in place.
\<close>

definition remove_one :: "string \<Rightarrow> val \<Rightarrow> val \<Rightarrow> heap \<Rightarrow> heap outcome" where
  "remove_one relation node relatedNode h =
     (case get_prop h node relation of
        Inl e \<Rightarrow> Inl (e, h)
      | Inr cur \<Rightarrow>
          (case cur of
             ArrRef b \<Rightarrow>
               (if b < length (arrs h)
                then Inr (h\<lparr>arrs := (arrs h)[b := splice (arrs h ! b)
                                                   (indexOf (arrs h ! b) relatedNode) 1]\<rparr>)
                else Inl (TypeError, h))
           | _ \<Rightarrow> Inl (TypeError, h)))"

text \<open>\<^verbatim>\<open>remove(nodes, relation, relatedNodes)\<close>; the value returned is \<^verbatim>\<open>nodes\<close> itself.\<close>

definition remove :: "val \<Rightarrow> string \<Rightarrow> val \<Rightarrow> heap \<Rightarrow> heap outcome" where
  "remove nodes relation relatedNodes h =
     forEach nodes (\<lambda>node. forEach relatedNodes (remove_one relation node)) h"

section \<open>The factory and its six operations\<close>

text \<open>
  The module variables \<^verbatim>\<open>lastParentsKey\<close> and \<^verbatim>\<open>lastChildrenKey\<close> are process-wide state
  next to the store.  A handle is the closure over \<^verbatim>\<open>nodes\<close>.
\<close>

record state =
  mem :: heap
  lastParentsKey :: string
  lastChildrenKey :: string

record handle =
  bound :: val

definition initial :: "heap \<Rightarrow> state" where
  "initial h = \<lparr>mem = h, lastParentsKey = ''parents'', lastChildrenKey = ''children''\<rparr>"

text \<open>\<^verbatim>\<open>toNodes\<close>: anything that is not an array is wrapped into a new one-element array.\<close>

definition toNodes :: "val \<Rightarrow> heap \<Rightarrow> val \<times> heap" where
  "toNodes v h =
     (case v of
        ArrRef b \<Rightarrow> (v, h)
      | _ \<Rightarrow> (ArrRef (length (arrs h)), h\<lparr>arrs := arrs h @ [[v]]\<rparr>))"

text \<open>
  \<^verbatim>\<open>key || last\<close> for an optional string argument: an omitted argument and the empty
  string are both falsy.
\<close>

definition or_last :: "string option \<Rightarrow> string \<Rightarrow> string" where
  "or_last key prev = (case key of None \<Rightarrow> prev | Some s \<Rightarrow> if s = [] then prev else s)"

definition Graph :: "val \<Rightarrow> string option \<Rightarrow> string option \<Rightarrow> state \<Rightarrow> handle \<times> state" where
  "Graph nodes parentsKey childrenKey st =
     (case toNodes nodes (mem st) of
        (ns, h) \<Rightarrow>
          (\<lparr>bound = ns\<rparr>,
           \<lparr>mem = h,
            lastParentsKey = or_last parentsKey (lastParentsKey st),
            lastChildrenKey = or_last childrenKey (lastChildrenKey st)\<rparr>))"

definition parents :: "handle \<Rightarrow> filt \<Rightarrow> int option \<Rightarrow> state \<Rightarrow> (error + val list) option" where
  "parents hdl flt generations st = get (bound hdl) (lastParentsKey st) flt generations (mem st)"

definition children :: "handle \<Rightarrow> filt \<Rightarrow> int option \<Rightarrow> state \<Rightarrow> (error + val list) option" where
  "children hdl flt generations st = get (bound hdl) (lastChildrenKey st) flt generations (mem st)"

text \<open>
  The four mutators evaluate the inner call first and pass its result, the array of the
  supplied nodes, to the outer call.  Each returns the bound array \<^verbatim>\<open>nodes\<close>.  When a
  call throws, the store keeps what was written before the fault.
\<close>

definition addParents :: "handle \<Rightarrow> val \<Rightarrow> state \<Rightarrow> state outcome" where
  "addParents hdl ps st =
     (case toNodes ps (mem st) of
        (given, h0) \<Rightarrow>
          (case add given (lastChildrenKey st) (bound hdl) h0 of
             Inl (e, hf) \<Rightarrow> Inl (e, st\<lparr>mem := hf\<rparr>)
           | Inr h1 \<Rightarrow>
               (case add (bound hdl) (lastParentsKey st) given h1 of
                  Inl (e, hf) \<Rightarrow> Inl (e, st\<lparr>mem := hf\<rparr>)
                | Inr h2 \<Rightarrow> Inr (st\<lparr>mem := h2\<rparr>))))"

definition addChildren :: "handle \<Rightarrow> val \<Rightarrow> state \<Rightarrow> state outcome" where
  "addChildren hdl cs st =
     (case toNodes cs (mem st) of
        (given, h0) \<Rightarrow>
          (case add given (lastParentsKey st) (bound hdl) h0 of
             Inl (e, hf) \<Rightarrow> Inl (e, st\<lparr>mem := hf\<rparr>)
           | Inr h1 \<Rightarrow>
               (case add (bound hdl) (lastChildrenKey st) given h1 of
                  Inl (e, hf) \<Rightarrow> Inl (e, st\<lparr>mem := hf\<rparr>)
                | Inr h2 \<Rightarrow> Inr (st\<lparr>mem := h2\<rparr>))))"

definition removeParents :: "handle \<Rightarrow> val \<Rightarrow> state \<Rightarrow> state outcome" where
  "removeParents hdl ps st =
     (case toNodes ps (mem st) of
        (given, h0) \<Rightarrow>
          (case remove given (lastChildrenKey st) (bound hdl) h0 of
             Inl (e, hf) \<Rightarrow> Inl (e, st\<lparr>mem := hf\<rparr>)
           | Inr h1 \<Rightarrow>
               (case remove (bound hdl) (lastParentsKey st) given h1 of
                  Inl (e, hf) \<Rightarrow> Inl (e, st\<lparr>mem := hf\<rparr>)
                | Inr h2 \<Rightarrow> Inr (st\<lparr>mem := h2\<rparr>))))"

definition removeChildren :: "handle \<Rightarrow> val \<Rightarrow> state \<Rightarrow> state outcome" where
  "removeChildren hdl cs st =
     (case toNodes cs (mem st) of
        (given, h0) \<Rightarrow>
          (case remove given (lastParentsKey st) (bound hdl) h0 of
             Inl (e, hf) \<Rightarrow> Inl (e, st\<lparr>mem := hf\<rparr>)
           | Inr h1 \<Rightarrow>
               (case remove (bound hdl) (lastChildrenKey st) given h1 of
                  Inl (e, hf) \<Rightarrow> Inl (e, st\<lparr>mem := hf\<rparr>)
                | Inr h2 \<Rightarrow> Inr (st\<lparr>mem := h2\<rparr>))))"

text \<open>The relation list a node holds under a key, when the field refers to an array.\<close>

definition rel_list :: "heap \<Rightarrow> val \<Rightarrow> string \<Rightarrow> val list option" where
  "rel_list h v k = (case get_prop h v k of Inl e \<Rightarrow> None | Inr cur \<Rightarrow> array_of h cur)"

section \<open>Notions used in the proofs\<close>

text \<open>A loop over a fixed list of values, each callback working on the store as it stands.\<close>

fun run_each :: "(val \<Rightarrow> heap \<Rightarrow> heap outcome) \<Rightarrow> val list \<Rightarrow> heap \<Rightarrow> heap outcome" where
  "run_each f [] h = Inr h"
| "run_each f (x # xs) h = (case f x h of Inl e \<Rightarrow> Inl e | Inr h' \<Rightarrow> run_each f xs h')"

text \<open>What one step of \<^verbatim>\<open>remove\<close> does to the contents of a relation list.\<close>

definition splice_out :: "val \<Rightarrow> val list \<Rightarrow> val list" where
  "splice_out x ys = splice ys (indexOf ys x) 1"

text \<open>\<open>n\<close> copies of a list, one after the other.\<close>

definition copies :: "nat \<Rightarrow> val list \<Rightarrow> val list" where
  "copies n xs = concat (replicate n xs)"

text \<open>
  A store has no dangling array reference when every array reference held in a field of
  an object is the address of an array of the store.
\<close>

definition no_dangling :: "heap \<Rightarrow> bool" where
  "no_dangling h =
     list_all (\<lambda>ob. list_all (\<lambda>(k, v). case v of ArrRef b \<Rightarrow> b < length (arrs h) | _ \<Rightarrow> True) ob)
       (objs h)"

definition closed :: "heap \<Rightarrow> bool" where
  "closed h \<longleftrightarrow>
     (\<forall>a k b. a < length (objs h) \<longrightarrow> lookup (objs h ! a) k = ArrRef b \<longrightarrow> b < length (arrs h))"

text \<open>\<open>h\<close> has the objects of \<open>h0\<close> (their fields may differ) and all its arrays, untouched.\<close>

definition extends :: "heap \<Rightarrow> heap \<Rightarrow> bool" where
  "extends h0 h \<longleftrightarrow>
     length (objs h) = length (objs h0) \<and> length (arrs h0) \<le> length (arrs h) \<and>
     (\<forall>b < length (arrs h0). arrs h ! b = arrs h0 ! b)"

text \<open>No array at address \<open>n\<close> or above is held by two different fields.\<close>

definition unshared :: "nat \<Rightarrow> heap \<Rightarrow> bool" where
  "unshared n h \<longleftrightarrow>
     (\<forall>a k a' k' b. a < length (objs h) \<longrightarrow> a' < length (objs h) \<longrightarrow> n \<le> b \<longrightarrow>
        lookup (objs h ! a) k = ArrRef b \<longrightarrow> lookup (objs h ! a') k' = ArrRef b \<longrightarrow>
        a = a' \<and> k = k')"

text \<open>The field \<open>k\<close> of \<open>v\<close> holds an array allocated at address \<open>n\<close> or above.\<close>

definition fresh_at :: "nat \<Rightarrow> heap \<Rightarrow> val \<Rightarrow> string \<Rightarrow> bool" where
  "fresh_at n h v k = (case get_prop h v k of Inr (ArrRef b) \<Rightarrow> n \<le> b | _ \<Rightarrow> False)"

definition inv :: "heap \<Rightarrow> heap \<Rightarrow> bool" where
  "inv h0 h \<longleftrightarrow> extends h0 h \<and> closed h \<and> unshared (length (arrs h0)) h"

text \<open>
  What a successful \<^verbatim>\<open>add\<close> over the node set \<open>S\<close> may change between two stores, and
  what a successful \<^verbatim>\<open>remove\<close> may change.
\<close>

definition add_frame :: "string \<Rightarrow> val set \<Rightarrow> heap \<Rightarrow> heap \<Rightarrow> bool" where
  "add_frame K S h h' \<longleftrightarrow>
     length (objs h') = length (objs h) \<and> length (arrs h) \<le> length (arrs h') \<and>
     (\<forall>a<length (objs h).
        (\<forall>k. k \<noteq> K \<longrightarrow> lookup (objs h' ! a) k = lookup (objs h ! a) k) \<and>
        (ObjRef a \<notin> S \<longrightarrow> objs h' ! a = objs h ! a)) \<and>
     (\<forall>b<length (arrs h). arrs h' ! b = arrs h ! b)"

definition remove_frame :: "string \<Rightarrow> val set \<Rightarrow> heap \<Rightarrow> heap \<Rightarrow> bool" where
  "remove_frame K S h h' \<longleftrightarrow>
     objs h' = objs h \<and> length (arrs h') = length (arrs h) \<and>
     (\<forall>b<length (arrs h).
        set (arrs h' ! b) \<subseteq> set (arrs h ! b) \<and>
        ((\<forall>v\<in>S. get_prop h v K \<noteq> Inr (ArrRef b)) \<longrightarrow> arrs h' ! b = arrs h ! b))"

section \<open>Example stores\<close>

text \<open>
  A family: \<open>A\<close> (object 0) has the child \<open>B\<close> (object 1), \<open>B\<close> has the child \<open>C\<close>
  (object 2); \<open>D\<close> (object 3) is related to nobody and object 4 has no relation fields.
  Arrays 8 to 11 are the node sets \<open>[A]\<close>, \<open>[D]\<close>, \<open>[A, D]\<close> and \<open>[object 4]\<close>.
\<close>

definition family :: heap where
  "family =
     \<lparr>objs = [[(''id'', Number 1), (''parents'', ArrRef 0), (''children'', ArrRef 1)],
              [(''id'', Number 2), (''parents'', ArrRef 2), (''children'', ArrRef 3)],
              [(''id'', Number 3), (''parents'', ArrRef 4), (''children'', ArrRef 5)],
              [(''id'', Number 4), (''parents'', ArrRef 6), (''children'', ArrRef 7)],
              [(''id'', Number 5)]],
      arrs = [[], [ObjRef 1], [ObjRef 0], [ObjRef 2], [ObjRef 1], [], [], [],
              [ObjRef 0], [ObjRef 3], [ObjRef 0, ObjRef 3], [ObjRef 4]]\<rparr>"

text \<open>
  A node with relation lists under two vocabularies: \<^verbatim>\<open>up\<close>/\<^verbatim>\<open>down\<close> and \<^verbatim>\<open>p2\<close>/\<^verbatim>\<open>c2\<close>.
  A first handle is made with the first pair of names, then a second one with the other.
\<close>

definition keyed :: heap where
  "keyed =
     \<lparr>objs = [[(''up'', ArrRef 0), (''down'', ArrRef 1), (''p2'', ArrRef 2), (''c2'', ArrRef 3)],
              [], []],
      arrs = [[], [ObjRef 1], [], [ObjRef 2]]\<rparr>"

definition first_handle :: handle where
  "first_handle = fst (Graph (ObjRef 0) (Some ''up'') (Some ''down'') (initial keyed))"

definition after_first :: state where
  "after_first = snd (Graph (ObjRef 0) (Some ''up'') (Some ''down'') (initial keyed))"

definition after_second :: state where
  "after_second = snd (Graph (ObjRef 1) (Some ''p2'') (Some ''c2'') after_first)"

text \<open>
  A parent (object 0) whose only child (object 1) has a field named \<^verbatim>\<open>undefined\<close>; array 4
  is the node set holding the parent.
\<close>

definition odd_child :: heap where
  "odd_child =
     \<lparr>objs = [[(''parents'', ArrRef 0), (''children'', ArrRef 1)],
              [(''undefined'', Number 1), (''parents'', ArrRef 2), (''children'', ArrRef 3)]],
      arrs = [[], [ObjRef 1], [ObjRef 0], [], [ObjRef 0]]\<rparr>"

text \<open>
  A node (object 0) with a list under the empty name and a children list; objects 1 and 2
  are the entries of the two lists.
\<close>

definition blank_key :: heap where
  "blank_key =
     \<lparr>objs = [[([], ArrRef 0), (''parents'', ArrRef 1), (''children'', ArrRef 2)], [], []],
      arrs = [[ObjRef 1], [], [ObjRef 2]]\<rparr>"

text \<open>
  Sharing: the parents field and the children field of \<open>A\<close> (object 0) and the children
  field of \<open>E\<close> (object 1) hold the same array, array 0, whose one entry is \<open>C\<close>
  (object 2).  Array 2 is the node set \<open>[A]\<close> and array 3 the sequence \<open>[C]\<close>.
\<close>

definition shared_list :: heap where
  "shared_list =
     \<lparr>objs = [[(''parents'', ArrRef 0), (''children'', ArrRef 0)],
              [(''parents'', ArrRef 1), (''children'', ArrRef 0)],
              [(''parents'', ArrRef 1), (''children'', ArrRef 1)]],
      arrs = [[ObjRef 2], [], [ObjRef 0], [ObjRef 2]]\<rparr>"

definition match_all :: filt where
  "match_all = Predicate (\<lambda>h v. True)"

section \<open>Evaluation\<close>

named_theorems js_eval

declare thrown_def [js_eval] left_behind_def [js_eval]
  lookup_def [js_eval] Object_keys_def [js_eval] strict_eq_def [js_eval]
  get_prop_def [js_eval] array_of_def [js_eval] key_name_def [js_eval] check.simps [js_eval]
  resembles_def [js_eval] as_record_def [js_eval] filterFn_def [js_eval] recurses_def [js_eval]
  next_generations_def [js_eval] direct_matches_def [js_eval] get_def [js_eval] forEach_def [js_eval]
  concat_arg_def [js_eval] add_node_def [js_eval] add_def [js_eval] indexOf_def [js_eval]
  splice_def [js_eval] remove_one_def [js_eval] remove_def [js_eval] initial_def [js_eval]
  toNodes_def [js_eval] or_last_def [js_eval] Graph_def [js_eval] parents_def [js_eval]
  children_def [js_eval] addParents_def [js_eval] addChildren_def [js_eval]
  removeParents_def [js_eval] removeChildren_def [js_eval] rel_list_def [js_eval]
  match_all_def [js_eval]

lemma get_rec_Nil [js_eval]: "get_rec h relation flt generations [] filtered = Some (Inr filtered)"
  by (subst get_rec.simps) simp

lemma get_rec_Cons [js_eval]:
  "get_rec h relation flt generations (node # rest) filtered =
     (case get_prop h node relation of
        Inl e \<Rightarrow> Some (Inl e)
      | Inr cur \<Rightarrow>
          (case array_of h cur of
             None \<Rightarrow> Some (Inl TypeError)
           | Some rel \<Rightarrow>
               (case filter_arr h flt rel of
                  Inl e \<Rightarrow> Some (Inl e)
                | Inr matches \<Rightarrow>
                    (if recurses generations
                     then Option.bind
                            (get_rec h relation flt (next_generations generations) rel [])
                            (\<lambda>r. case r of
                               Inl e \<Rightarrow> Some (Inl e)
                             | Inr deeper \<Rightarrow>
                                 get_rec h relation flt generations rest (matches @ deeper))
                     else get_rec h relation flt generations rest (matches @ [])))))"
  by (subst get_rec.simps) simp

section \<open>Facts about lists and the store\<close>

lemma error_is_TypeError: "(e::error) = TypeError"
  by (cases e) simp

lemma lookup_update: "lookup (AList.update k v ob) k' = (if k' = k then v else lookup ob k')"
  by (simp add: lookup_def update_conv')

subsection \<open>Splicing out of a list\<close>

lemma indexOf_from_absent: "x \<notin> set ys \<Longrightarrow> indexOf_from ys x i = - 1"
  by (induction ys arbitrary: i) (auto simp: strict_eq_def)

lemma indexOf_from_first:
  "x \<notin> set pre \<Longrightarrow> indexOf_from (pre @ x # post) x i = i + int (length pre)"
  by (induction pre arbitrary: i) (auto simp: strict_eq_def)

lemma splice_out_first: "x \<notin> set pre \<Longrightarrow> splice_out x (pre @ x # post) = pre @ post"
proof -
  assume "x \<notin> set pre"
  then have "indexOf (pre @ x # post) x = int (length pre)"
    by (simp add: indexOf_def indexOf_from_first)
  moreover have "nat (int (length pre) + 1) = Suc (length pre)"
    by simp
  ultimately show ?thesis
    by (simp add: splice_out_def splice_def Let_def)
qed

lemma splice_out_absent: "x \<notin> set ys \<Longrightarrow> splice_out x ys = butlast ys"
  by (cases "ys = []")
     (auto simp: splice_out_def indexOf_def indexOf_from_absent splice_def Let_def
                 butlast_conv_take nat_diff_distrib max_def min_def)

lemma splice_out_present: "x \<in> set ys \<Longrightarrow> splice_out x ys = remove1 x ys"
proof -
  assume "x \<in> set ys"
  then obtain pre post where "ys = pre @ x # post" "x \<notin> set pre"
    by (meson split_list_first)
  then show ?thesis by (simp add: splice_out_first remove1_append)
qed

lemma fold_splice_out:
  "set rs \<inter> set ys = {} \<Longrightarrow> fold splice_out rs (ys @ rs @ zs) = ys @ zs"
proof (induction rs)
  case Nil
  then show ?case by simp
next
  case (Cons r rs)
  then have "r \<notin> set ys" "set rs \<inter> set ys = {}" by auto
  then show ?case using Cons.IH by (simp add: splice_out_first)
qed

lemma copies_simps [simp]: "copies 0 xs = []" "copies (Suc n) xs = xs @ copies n xs"
  by (simp_all add: copies_def)

lemma fold_splice_out_copies:
  "(0 < m \<longrightarrow> set rs \<inter> set ys = {}) \<Longrightarrow>
   fold splice_out (copies m rs) (ys @ copies m rs @ zs) = ys @ zs"
proof (induction m arbitrary: zs)
  case 0
  then show ?case by simp
next
  case (Suc m)
  then have d: "set rs \<inter> set ys = {}" by simp
  have "fold splice_out rs (ys @ rs @ copies m rs @ zs) = ys @ copies m rs @ zs"
    using d by (rule fold_splice_out)
  then show ?case using Suc.IH [of zs] d by simp
qed

subsection \<open>Relation lists in the store\<close>

lemma rel_listD:
  "rel_list h v k = Some xs \<Longrightarrow> \<exists>cur. get_prop h v k = Inr cur \<and> array_of h cur = Some xs"
  by (auto simp: rel_list_def split: sum.splits)

lemma rel_list_ObjRef:
  "rel_list h (ObjRef a) k =
     (if a < length (objs h) then array_of h (lookup (objs h ! a) k) else None)"
  by (simp add: rel_list_def get_prop_def)

lemma rel_list_SomeD:
  assumes "rel_list h v k = Some ys"
  obtains a l where "v = ObjRef a" "a < length (objs h)" "lookup (objs h ! a) k = ArrRef l"
    "l < length (arrs h)" "arrs h ! l = ys"
  using assms
  by (auto simp: rel_list_def get_prop_def array_of_def split: val.splits if_splits sum.splits)

lemma rel_list_non_object: "(\<And>a. v \<noteq> ObjRef a) \<Longrightarrow> rel_list h v k = None"
  by (cases v) (auto simp: rel_list_def get_prop_def array_of_def)

lemma fresh_at_ObjRef:
  "fresh_at n h (ObjRef a) k \<longleftrightarrow>
     a < length (objs h) \<and> (\<exists>b. lookup (objs h ! a) k = ArrRef b \<and> n \<le> b)"
  by (cases "lookup (objs h ! a) k") (simp_all add: fresh_at_def get_prop_def)

lemma fresh_at_non_object: "(\<And>a. v \<noteq> ObjRef a) \<Longrightarrow> \<not> fresh_at n h v k"
  by (cases v) (auto simp: fresh_at_def get_prop_def)

lemma fresh_atD:
  assumes "fresh_at n h v k"
  obtains a b where "v = ObjRef a" "a < length (objs h)" "lookup (objs h ! a) k = ArrRef b" "n \<le> b"
proof (cases v)
  case (ObjRef a)
  then show ?thesis using assms that by (auto simp: fresh_at_ObjRef)
qed (use assms fresh_at_non_object [of v n h k] in simp_all)

lemma closedD:
  "closed h \<Longrightarrow> a < length (objs h) \<Longrightarrow> lookup (objs h ! a) k = ArrRef b \<Longrightarrow> b < length (arrs h)"
  unfolding closed_def by blast

lemma unsharedD:
  "unshared n h \<Longrightarrow> a < length (objs h) \<Longrightarrow> a' < length (objs h) \<Longrightarrow> n \<le> b \<Longrightarrow>
   lookup (objs h ! a) k = ArrRef b \<Longrightarrow> lookup (objs h ! a') k' = ArrRef b \<Longrightarrow> a = a' \<and> k = k'"
  unfolding unshared_def by blast

section \<open>The query drops the matches of all but the last node\<close>

text \<open>
  The loop body never reads \<open>filtered\<close>: whatever the nodes before the current one
  contributed is lost.  With \<open>generations = 0\<close> a node that is followed by another one
  contributes nothing to the result.
\<close>

lemma get_rec_forgets:
  "get_rec h relation flt generations (node # rest) filtered
     = get_rec h relation flt generations (node # rest) []"
  by (simp add: get_rec_Cons)

lemma get_rec_skips_node:
  assumes "rel_list h node relation = Some rel" and "filter_arr h flt rel = Inr matches"
  shows "get_rec h relation flt (Some 0) (node # next # rest) filtered
           = get_rec h relation flt (Some 0) (next # rest) []"
proof -
  obtain cur where "get_prop h node relation = Inr cur" "array_of h cur = Some rel"
    using assms(1) rel_listD by blast
  then have "get_rec h relation flt (Some 0) (node # next # rest) filtered
               = get_rec h relation flt (Some 0) (next # rest) (matches @ [])"
    using assms(2) by (subst get_rec_Cons) (simp add: recurses_def)
  then show ?thesis
    using get_rec_forgets [of h relation flt "Some 0" "next" rest] by simp
qed

text \<open>
  C1.  The claim: \<^verbatim>\<open>get\<close> returns the concatenation, over the input nodes in input order, of
  each node's direct matches followed by the deeper results, no input node's matches being
  omitted.  The loop body assigns \<^verbatim>\<open>filtered = node[relation].filter(filterFn)\<close>, which
  discards what the earlier nodes contributed.  On the family, \<open>children(match_all, 0)\<close>
  gives \<open>[B]\<close> for the node set \<open>[A]\<close> and \<open>[]\<close> for \<open>[D]\<close>, but for \<open>[A, D]\<close> it gives
  \<open>[]\<close> instead of \<open>[B]\<close>.
\<close>

theorem get_keeps_only_last_node:
  "children \<lparr>bound = ArrRef 8\<rparr> match_all (Some 0) (initial family) = Some (Inr [ObjRef 1]) \<and>
   children \<lparr>bound = ArrRef 9\<rparr> match_all (Some 0) (initial family) = Some (Inr []) \<and>
   children \<lparr>bound = ArrRef 10\<rparr> match_all (Some 0) (initial family) = Some (Inr [])"
  by (simp add: js_eval family_def)

section \<open>Removing a relation that is absent\<close>

text \<open>
  C2.  The claim: when \<open>B\<close> does not occur in \<open>A\<close>'s relation list, removing it is a no-op.
  \<^verbatim>\<open>indexOf\<close> then yields -1 and \<^verbatim>\<open>splice(-1, 1)\<close> deletes the last element of the list.
  On the family \<open>D\<close> is not a child of \<open>A\<close>, whose children list is \<open>[B]\<close>; after
  \<open>removeChildren([D])\<close> on \<open>{A}\<close> that list is empty.  (In general a removal step
  is \<open>remove1\<close> for a value that occurs and \<open>butlast\<close> for one that does not: lemmas
  \<open>splice_out_present\<close> and \<open>splice_out_absent\<close>.)
\<close>

theorem remove_absent_deletes_last:
  "rel_list family (ObjRef 0) ''children'' = Some [ObjRef 1] \<and>
   map_sum id (\<lambda>st. rel_list (mem st) (ObjRef 0) ''children'')
     (removeChildren \<lparr>bound = ArrRef 8\<rparr> (ArrRef 9) (initial family)) = Inr (Some [])"
  by (simp add: js_eval family_def)

section \<open>Symmetry of the two relation lists\<close>

text \<open>
  C4.  The claim: every add/remove operation of a handle preserves that \<open>A\<close> occurs in
  \<open>B\<close>'s parents list iff \<open>B\<close> occurs in \<open>A\<close>'s children list.  On the family \<open>B\<close> is a
  child of \<open>A\<close> and \<open>A\<close> a parent of \<open>B\<close>.  After \<open>removeChildren([D])\<close> on \<open>{A}\<close>, which
  names no existing relation, \<open>A\<close> is still a parent of \<open>B\<close> but \<open>B\<close> is no longer a child
  of \<open>A\<close>: the same \<^verbatim>\<open>splice(-1, 1)\<close> as for C2.  (The \<open>addChildren\<close> half of the
  claim holds: lemma \<open>addChildren_one_link\<close> below.)
\<close>

theorem remove_absent_breaks_symmetry:
  "rel_list family (ObjRef 0) ''children'' = Some [ObjRef 1] \<and>
   rel_list family (ObjRef 1) ''parents'' = Some [ObjRef 0] \<and>
   map_sum id (\<lambda>st. (rel_list (mem st) (ObjRef 0) ''children'',
                      rel_list (mem st) (ObjRef 1) ''parents''))
     (removeChildren \<lparr>bound = ArrRef 8\<rparr> (ArrRef 9) (initial family))
   = Inr (Some [], Some [ObjRef 0])"
  by (simp add: js_eval family_def)

section \<open>The structural matcher reads one key too many\<close>

text \<open>
  What the walk computes: agreement on every key of the filter and on the name
  \<^verbatim>\<open>"undefined"\<close>.
\<close>

lemma check_iff:
  "key \<le> length keys \<Longrightarrow>
   check self ob keys key \<longleftrightarrow>
     (\<forall>i. key \<le> i \<and> i \<le> length keys \<longrightarrow>
          lookup self (key_name keys i) = lookup ob (key_name keys i))"
proof (induction self ob keys key rule: check.induct)
  case (1 self ob keys key)
  let ?P = "\<lambda>i. lookup self (key_name keys i) = lookup ob (key_name keys i)"
  have split: "(\<forall>i. key \<le> i \<and> i \<le> length keys \<longrightarrow> ?P i) \<longleftrightarrow>
               ?P key \<and> (\<forall>i. key + 1 \<le> i \<and> i \<le> length keys \<longrightarrow> ?P i)"
    using "1.prems" by (auto simp: le_Suc_eq Suc_le_eq dest: le_neq_implies_less)
  show ?case
  proof (cases "?P key")
    case False
    then show ?thesis using split by (subst check.simps) (simp add: strict_eq_def)
  next
    case True
    show ?thesis
    proof (cases "key + 1 \<le> length keys")
      case le: True
      have "check self ob keys (key + 1) \<longleftrightarrow>
              (\<forall>i. key + 1 \<le> i \<and> i \<le> length keys \<longrightarrow> ?P i)"
        using "1.IH" True le by (simp add: strict_eq_def)
      then show ?thesis using True le split by (subst check.simps) (simp add: strict_eq_def)
    next
      case False
      then have "\<forall>i. key + 1 \<le> i \<and> i \<le> length keys \<longrightarrow> ?P i" by auto
      then show ?thesis using True False split by (subst check.simps) (simp add: strict_eq_def)
    qed
  qed
qed

lemma resembles_iff:
  "resembles self ob \<longleftrightarrow>
     (\<forall>k \<in> set (Object_keys self) \<union> {''undefined''}. strict_eq (lookup self k) (lookup ob k))"
proof -
  let ?keys = "Object_keys self"
  have "resembles self ob \<longleftrightarrow>
          (\<forall>i. i \<le> length ?keys \<longrightarrow>
             lookup self (key_name ?keys i) = lookup ob (key_name ?keys i))"
    using check_iff [of 0 ?keys self ob] by (simp add: resembles_def)
  also have "\<dots> \<longleftrightarrow> (\<forall>k \<in> set ?keys \<union> {''undefined''}. lookup self k = lookup ob k)"
  proof
    assume a: "\<forall>i. i \<le> length ?keys \<longrightarrow>
             lookup self (key_name ?keys i) = lookup ob (key_name ?keys i)"
    show "\<forall>k \<in> set ?keys \<union> {''undefined''}. lookup self k = lookup ob k"
    proof
      fix k assume "k \<in> set ?keys \<union> {''undefined''}"
      then consider i where "i < length ?keys" "k = ?keys ! i" | "k = ''undefined''"
        by (auto simp: in_set_conv_nth)
      then show "lookup self k = lookup ob k"
      proof cases
        case 1
        then show ?thesis using a [rule_format, of i] by (simp add: key_name_def)
      next
        case 2
        then show ?thesis using a [rule_format, of "length ?keys"] by (simp add: key_name_def)
      qed
    qed
  next
    assume a: "\<forall>k \<in> set ?keys \<union> {''undefined''}. lookup self k = lookup ob k"
    show "\<forall>i. i \<le> length ?keys \<longrightarrow>
             lookup self (key_name ?keys i) = lookup ob (key_name ?keys i)"
    proof (intro allI impI)
      fix i assume "i \<le> length ?keys"
      have "key_name ?keys i \<in> set ?keys \<union> {''undefined''}"
        by (simp add: key_name_def)
      then show "lookup self (key_name ?keys i) = lookup ob (key_name ?keys i)"
        using a by blast
    qed
  qed
  finally show ?thesis by (simp add: strict_eq_def)
qed

text \<open>
  C5.  The claim: \<^verbatim>\<open>resembles(filter, candidate)\<close> holds iff the candidate agrees with the
  filter on every key of the filter; the empty filter matches every candidate.  The walk
  continues while \<^verbatim>\<open>key <= len\<close>, so it also compares the two records at the name
  \<^verbatim>\<open>"undefined"\<close>: the empty filter rejects a candidate that has a field of that name,
  and \<open>children\<close> without a filter leaves out a child that \<open>children\<close> with an
  accept-all predicate returns.
\<close>

theorem resembles_empty_filter_rejects:
  "resembles [] [(''undefined'', Number 1)] = False \<and>
   children \<lparr>bound = ArrRef 4\<rparr> NoFilter (Some 0) (initial odd_child) = Some (Inr []) \<and>
   children \<lparr>bound = ArrRef 4\<rparr> match_all (Some 0) (initial odd_child) = Some (Inr [ObjRef 1])"
  by (simp add: js_eval odd_child_def)

section \<open>The key names are process-wide state\<close>

lemma Graph_keys:
  "Graph ns pk ck st = (hdl, st') \<Longrightarrow>
     lastParentsKey st' = or_last pk (lastParentsKey st) \<and>
     lastChildrenKey st' = or_last ck (lastChildrenKey st)"
  by (auto simp: Graph_def split: prod.splits)

text \<open>
  C3, as claimed: the key names a handle works with are those in effect at its
  construction, and a later construction with other names does not change them.  The six
  operations read \<^verbatim>\<open>lastParentsKey\<close> and \<^verbatim>\<open>lastChildrenKey\<close> when they are called.  The
  first handle, made with \<^verbatim>\<open>up\<close>/\<^verbatim>\<open>down\<close>, returns the \<^verbatim>\<open>down\<close> list of its node before the
  second construction and the \<^verbatim>\<open>c2\<close> list of the same node after it.
\<close>

theorem later_construction_changes_keys:
  "children first_handle NoFilter (Some 0) after_first = Some (Inr [ObjRef 1]) \<and>
   children first_handle NoFilter (Some 0) after_second = Some (Inr [ObjRef 2])"
  by (simp add: js_eval first_handle_def after_first_def after_second_def keyed_def)

text \<open>
  C3, amended.  The key names used by the six operations of a handle are the process-wide
  names at the time of the call: after a later construction, the names that construction
  supplied, and where it omitted a name (or gave the empty string) the name in effect before.
  With \<open>P\<close> and \<open>C\<close> these two names, the earlier handle's \<open>parents\<close> and \<open>children\<close>
  query the lists under \<open>P\<close> and \<open>C\<close>; \<open>addParents\<close> runs \<^verbatim>\<open>add\<close> on the given nodes
  at \<open>C\<close> and then on the bound nodes at \<open>P\<close>, \<open>addChildren\<close> on the given nodes at
  \<open>P\<close> and then on the bound nodes at \<open>C\<close>, and \<open>removeParents\<close> and
  \<open>removeChildren\<close> run \<^verbatim>\<open>remove\<close> at the same keys in the same order.
\<close>

theorem handle_uses_current_keys:
  assumes "Graph ns pk ck st = (hdl1, st1)"
      and "Graph ns2 pk2 ck2 st1 = (hdl2, st2)"
      and "P = or_last pk2 (or_last pk (lastParentsKey st))"
      and "C = or_last ck2 (or_last ck (lastChildrenKey st))"
  shows "parents hdl1 flt g st2 = get (bound hdl1) P flt g (mem st2) \<and>
         children hdl1 flt g st2 = get (bound hdl1) C flt g (mem st2) \<and>
         addParents hdl1 x st2 =
           (case toNodes x (mem st2) of
              (given, h0) \<Rightarrow>
                (case add given C (bound hdl1) h0 of
                   Inl (e, hf) \<Rightarrow> Inl (e, st2\<lparr>mem := hf\<rparr>)
                 | Inr h1 \<Rightarrow>
                     (case add (bound hdl1) P given h1 of
                        Inl (e, hf) \<Rightarrow> Inl (e, st2\<lparr>mem := hf\<rparr>)
                      | Inr h2 \<Rightarrow> Inr (st2\<lparr>mem := h2\<rparr>)))) \<and>
         addChildren hdl1 x st2 =
           (case toNodes x (mem st2) of
              (given, h0) \<Rightarrow>
                (case add given P (bound hdl1) h0 of
                   Inl (e, hf) \<Rightarrow> Inl (e, st2\<lparr>mem := hf\<rparr>)
                 | Inr h1 \<Rightarrow>
                     (case add (bound hdl1) C given h1 of
                        Inl (e, hf) \<Rightarrow> Inl (e, st2\<lparr>mem := hf\<rparr>)
                      | Inr h2 \<Rightarrow> Inr (st2\<lparr>mem := h2\<rparr>)))) \<and>
         removeParents hdl1 x st2 =
           (case toNodes x (mem st2) of
              (given, h0) \<Rightarrow>
                (case remove given C (bound hdl1) h0 of
                   Inl (e, hf) \<Rightarrow> Inl (e, st2\<lparr>mem := hf\<rparr>)
                 | Inr h1 \<Rightarrow>
                     (case remove (bound hdl1) P given h1 of
                        Inl (e, hf) \<Rightarrow> Inl (e, st2\<lparr>mem := hf\<rparr>)
                      | Inr h2 \<Rightarrow> Inr (st2\<lparr>mem := h2\<rparr>)))) \<and>
         removeChildren hdl1 x st2 =
           (case toNodes x (mem st2) of
              (given, h0) \<Rightarrow>
                (case remove given P (bound hdl1) h0 of
                   Inl (e, hf) \<Rightarrow> Inl (e, st2\<lparr>mem := hf\<rparr>)
                 | Inr h1 \<Rightarrow>
                     (case remove (bound hdl1) C given h1 of
                        Inl (e, hf) \<Rightarrow> Inl (e, st2\<lparr>mem := hf\<rparr>)
                      | Inr h2 \<Rightarrow> Inr (st2\<lparr>mem := h2\<rparr>))))"
proof -
  have k1: "lastParentsKey st1 = or_last pk (lastParentsKey st)"
           "lastChildrenKey st1 = or_last ck (lastChildrenKey st)"
    using Graph_keys [OF assms(1)] by simp_all
  have k2: "lastParentsKey st2 = P" "lastChildrenKey st2 = C"
    using Graph_keys [OF assms(2)] k1 assms(3,4) by simp_all
  show ?thesis
    unfolding parents_def children_def addParents_def addChildren_def removeParents_def
      removeChildren_def k2
    by (intro conjI refl)
qed

theorem handle_uses_current_keys_witness:
  "children first_handle NoFilter (Some 0) after_second
     = get (bound first_handle) ''c2'' NoFilter (Some 0) (mem after_second) \<and>
   children first_handle NoFilter (Some 0) after_second = Some (Inr [ObjRef 2]) \<and>
   map_sum id (\<lambda>s. (rel_list (mem s) (ObjRef 0) ''p2'', rel_list (mem s) (ObjRef 0) ''c2'',
                     rel_list (mem s) (ObjRef 0) ''up'', rel_list (mem s) (ObjRef 0) ''down''))
     (addChildren first_handle (ObjRef 0) after_second)
     = Inr (Some [ObjRef 0], Some [ObjRef 2, ObjRef 0], Some [], Some [ObjRef 1])"
proof -
  have a: "Graph (ObjRef 0) (Some ''up'') (Some ''down'') (initial keyed) = (first_handle, after_first)"
    by (simp add: first_handle_def after_first_def)
  have b: "Graph (ObjRef 1) (Some ''p2'') (Some ''c2'') after_first
             = (fst (Graph (ObjRef 1) (Some ''p2'') (Some ''c2'') after_first), after_second)"
    by (simp add: after_second_def)
  have P: "''p2'' = or_last (Some ''p2'') (or_last (Some ''up'') (lastParentsKey (initial keyed)))"
    and C: "''c2'' = or_last (Some ''c2'') (or_last (Some ''down'') (lastChildrenKey (initial keyed)))"
    by (simp_all add: or_last_def)
  note t = handle_uses_current_keys [OF a b P C]
  have e: "children first_handle NoFilter (Some 0) after_second
             = get (bound first_handle) ''c2'' NoFilter (Some 0) (mem after_second)"
    using t [of NoFilter "Some 0"] by simp
  have v: "get (bound first_handle) ''c2'' NoFilter (Some 0) (mem after_second)
             = Some (Inr [ObjRef 2])"
    by (simp add: js_eval first_handle_def after_first_def after_second_def keyed_def)
  note m1 = t [of NoFilter None "ObjRef 0", THEN conjunct2, THEN conjunct2, THEN conjunct2,
      THEN conjunct1]
  have m: "map_sum id (\<lambda>s. (rel_list (mem s) (ObjRef 0) ''p2'', rel_list (mem s) (ObjRef 0) ''c2'',
                     rel_list (mem s) (ObjRef 0) ''up'', rel_list (mem s) (ObjRef 0) ''down''))
     (addChildren first_handle (ObjRef 0) after_second)
     = Inr (Some [ObjRef 0], Some [ObjRef 2, ObjRef 0], Some [], Some [ObjRef 1])"
    unfolding m1
    by (simp add: js_eval first_handle_def after_first_def after_second_def keyed_def)
  show ?thesis
    using e v m by simp
qed

text \<open>
  C8, as claimed: the key names given explicitly to a construction become the default of
  the later constructions that omit them.  \<^verbatim>\<open>lastParentsKey = parentsKey || lastParentsKey\<close>
  takes an empty name for an omitted one: after a construction with the explicit names
  \<^verbatim>\<open>''\<close> and \<^verbatim>\<open>''\<close> the defaults are still \<^verbatim>\<open>parents\<close> and \<^verbatim>\<open>children\<close>, and a second
  handle made with no names returns the \<^verbatim>\<open>children\<close> list of its node, not the list under
  the empty name.
\<close>

theorem empty_name_is_not_adopted:
  "children (fst (Graph (ObjRef 0) None None (snd (Graph (ObjRef 0) (Some []) (Some []) (initial blank_key)))))
     NoFilter (Some 0)
     (snd (Graph (ObjRef 0) None None (snd (Graph (ObjRef 0) (Some []) (Some []) (initial blank_key)))))
     = Some (Inr [ObjRef 2]) \<and>
   get (bound (fst (Graph (ObjRef 0) None None (snd (Graph (ObjRef 0) (Some []) (Some []) (initial blank_key))))))
     [] NoFilter (Some 0)
     (mem (snd (Graph (ObjRef 0) None None (snd (Graph (ObjRef 0) (Some []) (Some []) (initial blank_key))))))
     = Some (Inr [ObjRef 1]) \<and>
   lastParentsKey (snd (Graph (ObjRef 0) (Some []) (Some []) (initial blank_key))) = ''parents'' \<and>
   lastChildrenKey (snd (Graph (ObjRef 0) (Some []) (Some []) (initial blank_key))) = ''children''"
  by (simp add: js_eval blank_key_def)

text \<open>
  C8, amended.  A handle constructed with explicit non-empty key names operates on them,
  and so does a handle constructed afterwards with no key names: its queries read the lists
  under these names, its four linking operations run \<^verbatim>\<open>add\<close> and \<^verbatim>\<open>remove\<close> at them, and
  the names remain the process-wide default through any number of later constructions that
  omit them.  An empty name counts as omitted.
\<close>

theorem default_keys_persist:
  assumes "Graph ns (Some pk) (Some ck) st = (hdl1, st1)"
      and "Graph ns2 None None st1 = (hdl2, st2)"
      and "pk \<noteq> []" and "ck \<noteq> []"
  shows "parents hdl1 flt g st1 = get (bound hdl1) pk flt g (mem st1) \<and>
         children hdl1 flt g st1 = get (bound hdl1) ck flt g (mem st1) \<and>
         parents hdl2 flt g st2 = get (bound hdl2) pk flt g (mem st2) \<and>
         children hdl2 flt g st2 = get (bound hdl2) ck flt g (mem st2) \<and>
         addParents hdl2 x st2 =
           (case toNodes x (mem st2) of
              (given, h0) \<Rightarrow>
                (case add given ck (bound hdl2) h0 of
                   Inl (e, hf) \<Rightarrow> Inl (e, st2\<lparr>mem := hf\<rparr>)
                 | Inr h1 \<Rightarrow>
                     (case add (bound hdl2) pk given h1 of
                        Inl (e, hf) \<Rightarrow> Inl (e, st2\<lparr>mem := hf\<rparr>)
                      | Inr h2 \<Rightarrow> Inr (st2\<lparr>mem := h2\<rparr>)))) \<and>
         addChildren hdl2 x st2 =
           (case toNodes x (mem st2) of
              (given, h0) \<Rightarrow>
                (case add given pk (bound hdl2) h0 of
                   Inl (e, hf) \<Rightarrow> Inl (e, st2\<lparr>mem := hf\<rparr>)
                 | Inr h1 \<Rightarrow>
                     (case add (bound hdl2) ck given h1 of
                        Inl (e, hf) \<Rightarrow> Inl (e, st2\<lparr>mem := hf\<rparr>)
                      | Inr h2 \<Rightarrow> Inr (st2\<lparr>mem := h2\<rparr>)))) \<and>
         removeParents hdl2 x st2 =
           (case toNodes x (mem st2) of
              (given, h0) \<Rightarrow>
                (case remove given ck (bound hdl2) h0 of
                   Inl (e, hf) \<Rightarrow> Inl (e, st2\<lparr>mem := hf\<rparr>)
                 | Inr h1 \<Rightarrow>
                     (case remove (bound hdl2) pk given h1 of
                        Inl (e, hf) \<Rightarrow> Inl (e, st2\<lparr>mem := hf\<rparr>)
                      | Inr h2 \<Rightarrow> Inr (st2\<lparr>mem := h2\<rparr>)))) \<and>
         removeChildren hdl2 x st2 =
           (case toNodes x (mem st2) of
              (given, h0) \<Rightarrow>
                (case remove given pk (bound hdl2) h0 of
                   Inl (e, hf) \<Rightarrow> Inl (e, st2\<lparr>mem := hf\<rparr>)
                 | Inr h1 \<Rightarrow>
                     (case remove (bound hdl2) ck given h1 of
                        Inl (e, hf) \<Rightarrow> Inl (e, st2\<lparr>mem := hf\<rparr>)
                      | Inr h2 \<Rightarrow> Inr (st2\<lparr>mem := h2\<rparr>)))) \<and>
         lastParentsKey (fold (\<lambda>n s. snd (Graph n None None s)) nss st1) = pk \<and>
         lastChildrenKey (fold (\<lambda>n s. snd (Graph n None None s)) nss st1) = ck"
proof -
  have k1: "lastParentsKey st1 = pk" "lastChildrenKey st1 = ck"
    using Graph_keys [OF assms(1)] assms(3,4) by (simp_all add: or_last_def)
  have k2: "lastParentsKey st2 = pk" "lastChildrenKey st2 = ck"
    using Graph_keys [OF assms(2)] k1 by (simp_all add: or_last_def)
  have later: "lastParentsKey (fold (\<lambda>n s. snd (Graph n None None s)) nss s) = lastParentsKey s \<and>
               lastChildrenKey (fold (\<lambda>n s. snd (Graph n None None s)) nss s) = lastChildrenKey s"
    for s
    by (induction nss arbitrary: s) (simp_all add: Graph_def or_last_def split: prod.splits)
  have l: "lastParentsKey (fold (\<lambda>n s. snd (Graph n None None s)) nss st1) = pk"
          "lastChildrenKey (fold (\<lambda>n s. snd (Graph n None None s)) nss st1) = ck"
    using later [of st1] k1 by simp_all
  show ?thesis
    unfolding parents_def children_def addParents_def addChildren_def removeParents_def
      removeChildren_def k1 k2 l
    by (intro conjI refl)
qed

theorem default_keys_persist_witness:
  "children (fst (Graph (ObjRef 0) None None after_first)) NoFilter (Some 0)
       (snd (Graph (ObjRef 0) None None after_first))
     = Some (Inr [ObjRef 1]) \<and>
   map_sum id (\<lambda>s. (rel_list (mem s) (ObjRef 0) ''up'', rel_list (mem s) (ObjRef 0) ''down'',
                     rel_list (mem s) (ObjRef 0) ''p2'', rel_list (mem s) (ObjRef 0) ''c2''))
     (addChildren (fst (Graph (ObjRef 0) None None after_first)) (ObjRef 0)
        (snd (Graph (ObjRef 0) None None after_first)))
     = Inr (Some [ObjRef 0], Some [ObjRef 1, ObjRef 0], Some [], Some [ObjRef 2])"
proof -
  define hdl2 where "hdl2 = fst (Graph (ObjRef 0) None None after_first)"
  define st2 where "st2 = snd (Graph (ObjRef 0) None None after_first)"
  have a: "Graph (ObjRef 0) (Some ''up'') (Some ''down'') (initial keyed) = (first_handle, after_first)"
    by (simp add: first_handle_def after_first_def)
  have b: "Graph (ObjRef 0) None None after_first = (hdl2, st2)"
    by (simp add: hdl2_def st2_def)
  have ne: "''up'' \<noteq> []" "''down'' \<noteq> []" by simp_all
  note t = default_keys_persist [OF a b ne]
  have e: "children hdl2 NoFilter (Some 0) st2 = get (bound hdl2) ''down'' NoFilter (Some 0) (mem st2)"
    using t [of NoFilter "Some 0"] by simp
  have v: "get (bound hdl2) ''down'' NoFilter (Some 0) (mem st2) = Some (Inr [ObjRef 1])"
    by (simp add: hdl2_def st2_def js_eval first_handle_def after_first_def keyed_def)
  note m1 = t [of NoFilter None "ObjRef 0", THEN conjunct2, THEN conjunct2, THEN conjunct2,
      THEN conjunct2, THEN conjunct2, THEN conjunct1]
  have m: "map_sum id (\<lambda>s. (rel_list (mem s) (ObjRef 0) ''up'', rel_list (mem s) (ObjRef 0) ''down'',
                     rel_list (mem s) (ObjRef 0) ''p2'', rel_list (mem s) (ObjRef 0) ''c2''))
     (addChildren hdl2 (ObjRef 0) st2)
     = Inr (Some [ObjRef 0], Some [ObjRef 1, ObjRef 0], Some [], Some [ObjRef 2])"
    unfolding m1
    by (simp add: hdl2_def st2_def js_eval first_handle_def after_first_def keyed_def)
  show ?thesis
    using e v m unfolding hdl2_def st2_def by simp
qed

section \<open>The depth bound of a query\<close>

text \<open>
  With \<open>generations = 0\<close> the loop never calls itself: it faults if the direct matches of
  some node cannot be taken, and otherwise returns the direct matches of the node it
  visited last.
\<close>

lemma get_rec_no_recursion:
  "get_rec h K flt (Some 0) ns acc =
     Some (if \<exists>n\<in>set ns. isl (direct_matches h K flt n) then Inl TypeError
           else if ns = [] then Inr acc
           else direct_matches h K flt (last ns))"
proof (induction ns arbitrary: acc)
  case Nil
  show ?case by (simp add: get_rec_Nil)
next
  case (Cons n rest)
  show ?case
  proof (cases "direct_matches h K flt n")
    case (Inl e)
    then have "get_rec h K flt (Some 0) (n # rest) acc = Some (Inl e)"
      by (auto simp add: get_rec_Cons direct_matches_def error_is_TypeError [of e]
            split: sum.splits option.splits)
    then show ?thesis
      using Inl error_is_TypeError [of e] by simp
  next
    case (Inr ms)
    then have "get_rec h K flt (Some 0) (n # rest) acc = get_rec h K flt (Some 0) rest ms"
      by (auto simp add: get_rec_Cons direct_matches_def recurses_def
            split: sum.splits option.splits)
    then show ?thesis
      using Inr Cons.IH [of ms] by simp
  qed
qed



section \<open>Loops over arrays that the callbacks leave alone\<close>

lemma extends_refl: "extends h h"
  by (simp add: extends_def)

lemma forEach_from_snapshot:
  assumes step: "\<And>v h h'. P h \<Longrightarrow> v \<in> set xs \<Longrightarrow> f v h = Inr h' \<Longrightarrow> P h'"
      and arr: "\<And>h. P h \<Longrightarrow> b < length (arrs h) \<and> arrs h ! b = xs"
  shows "P h \<Longrightarrow> k + n = length xs \<Longrightarrow> forEach_from f b k n h = run_each f (drop k xs) h"
proof (induction n arbitrary: k h)
  case 0
  then show ?case by simp
next
  case (Suc n)
  have k: "k < length xs" using Suc.prems(2) by simp
  have b: "b < length (arrs h)" "arrs h ! b = xs" using arr [OF Suc.prems(1)] by simp_all
  have d: "drop k xs = xs ! k # drop (Suc k) xs"
    using k by (simp add: Cons_nth_drop_Suc)
  show ?case
  proof (cases "f (xs ! k) h")
    case (Inl e)
    then show ?thesis using k b d by simp
  next
    case (Inr h')
    have "P h'" using step [OF Suc.prems(1) _ Inr] k by simp
    then have "forEach_from f b (Suc k) n h' = run_each f (drop (Suc k) xs) h'"
      using Suc.IH [of h' "Suc k"] Suc.prems(2) by simp
    then show ?thesis using k b d Inr by simp
  qed
qed

lemma forEach_snapshot:
  assumes step: "\<And>v h h'. P h \<Longrightarrow> v \<in> set xs \<Longrightarrow> f v h = Inr h' \<Longrightarrow> P h'"
      and arr: "\<And>h. P h \<Longrightarrow> b < length (arrs h) \<and> arrs h ! b = xs"
      and P: "P h"
  shows "forEach (ArrRef b) f h = run_each f xs h"
proof -
  have "forEach_from f b 0 (length xs) h = run_each f (drop 0 xs) h"
    by (rule forEach_from_snapshot [where P = P, OF step arr P]) simp_all
  then show ?thesis using arr [OF P] by (simp add: forEach_def)
qed

lemma add_node_extends:
  "add_node K r v h = Inr h' \<Longrightarrow> extends h0 h \<Longrightarrow> extends h0 h'"
  by (auto simp: add_node_def extends_def nth_append split: sum.splits option.splits val.splits)

lemma add_run_each:
  assumes "extends h0 h" and "n < length (arrs h0)"
  shows "add (ArrRef n) K r h = run_each (add_node K r) (arrs h0 ! n) h"
  unfolding add_def
proof (rule forEach_snapshot [where P = "extends h0"])
  show "extends h0 h" by fact
  show "\<And>v h h'. extends h0 h \<Longrightarrow> v \<in> set (arrs h0 ! n) \<Longrightarrow> add_node K r v h = Inr h' \<Longrightarrow> extends h0 h'"
    using add_node_extends by blast
  show "\<And>h. extends h0 h \<Longrightarrow> n < length (arrs h) \<and> arrs h ! n = arrs h0 ! n"
    using assms(2) by (simp add: extends_def)
qed

lemma run_each_cong:
  assumes "\<And>v h. P h \<Longrightarrow> v \<in> set xs \<Longrightarrow> f v h = g v h"
      and "\<And>v h h'. P h \<Longrightarrow> v \<in> set xs \<Longrightarrow> g v h = Inr h' \<Longrightarrow> P h'"
      and "P h"
  shows "run_each f xs h = run_each g xs h"
  using assms
proof (induction xs arbitrary: h)
  case Nil
  show ?case by simp
next
  case (Cons x xs)
  have e: "f x h = g x h"
    by (rule Cons.prems(1) [OF Cons.prems(3)]) simp
  show ?case
  proof (cases "g x h")
    case (Inl err)
    then show ?thesis using e by simp
  next
    case (Inr h1)
    have P1: "P h1"
      by (rule Cons.prems(2) [OF Cons.prems(3) _ Inr]) simp
    have "run_each f xs h1 = run_each g xs h1"
    proof (rule Cons.IH [OF _ _ P1])
      show "f v h = g v h" if "P h" "v \<in> set xs" for v h
        using that by (intro Cons.prems(1)) simp_all
      show "P h'" if "P h" "v \<in> set xs" "g v h = Inr h'" for v h h'
        using that by (intro Cons.prems(2) [of h v h']) simp_all
    qed
    then show ?thesis using e Inr by simp
  qed
qed

section \<open>Nodes without a relation field\<close>

lemma add_node_keeps_lack:
  assumes "add_node K r x h = Inr h'" and "get_prop h v k = Inr Undefined"
  shows "get_prop h' v k = Inr Undefined"
proof -
  from assms(1) obtain a cur ys where x: "x = ObjRef a"
    and cur: "get_prop h x K = Inr cur" "array_of h cur = Some ys"
    and h': "h' = h\<lparr>objs := (objs h)[a := AList.update K (ArrRef (length (arrs h))) (objs h ! a)],
                     arrs := arrs h @ [ys @ concat_arg h r]\<rparr>"
    by (auto simp: add_node_def split: sum.splits option.splits val.splits)
  have ne: "\<not> (v = x \<and> k = K)"
    using cur assms(2) by (auto simp: array_of_def)
  show ?thesis
  proof (cases v)
    case (ObjRef a')
    then show ?thesis
      using assms(2) ne x h'
      by (cases "a' = a") (auto simp: get_prop_def lookup_update split: if_splits)
  qed (use assms(2) in \<open>simp_all add: get_prop_def\<close>)
qed

lemma run_add_keeps_lack:
  "run_each (add_node K r) vs h = Inr h' \<Longrightarrow> get_prop h v k = Inr Undefined \<Longrightarrow>
   get_prop h' v k = Inr Undefined"
proof (induction vs arbitrary: h)
  case Nil
  then show ?case by simp
next
  case (Cons x vs)
  then show ?case
    by (auto split: sum.splits dest: add_node_keeps_lack)
qed

lemma run_add_extends:
  "run_each (add_node K r) vs h = Inr h' \<Longrightarrow> extends h0 h \<Longrightarrow> extends h0 h'"
proof (induction vs arbitrary: h)
  case Nil
  then show ?case by simp
next
  case (Cons x vs)
  then show ?case
    by (auto split: sum.splits dest: add_node_extends)
qed

lemma run_add_fails:
  "v \<in> set vs \<Longrightarrow> get_prop h v K = Inr Undefined \<Longrightarrow>
   thrown (run_each (add_node K r) vs h) = Some TypeError"
proof (induction vs arbitrary: h)
  case Nil
  then show ?case by simp
next
  case (Cons x vs)
  show ?case
  proof (cases "add_node K r x h")
    case (Inl f)
    then show ?thesis by (cases f) (simp add: thrown_def error_is_TypeError)
  next
    case (Inr h1)
    have "x \<noteq> v"
      using Inr Cons.prems(2) by (auto simp: add_node_def array_of_def split: sum.splits)
    then have "v \<in> set vs" using Cons.prems(1) by simp
    moreover have "get_prop h1 v K = Inr Undefined"
      using add_node_keeps_lack [OF Inr Cons.prems(2)] .
    ultimately show ?thesis using Cons.IH Inr by simp
  qed
qed

lemma toNodes_objs: "toNodes x h = (given, h0) \<Longrightarrow> objs h0 = objs h \<and> extends h h0"
  by (auto simp: toNodes_def extends_def nth_append split: val.splits)

lemma get_prop_objs: "objs h' = objs h \<Longrightarrow> get_prop h' v k = get_prop h v k"
  by (cases v) (simp_all add: get_prop_def)

lemma link_fails:
  assumes given: "array_of h0 given = Some xs" and nodes: "array_of h0 nodes = Some ns"
      and lack: "(\<exists>v\<in>set xs. get_prop h0 v K1 = Inr Undefined) \<or>
                 (\<exists>v\<in>set ns. get_prop h0 v K2 = Inr Undefined)"
  shows "thrown (case add given K1 nodes h0 of
                   Inl (e, hf) \<Rightarrow> Inl (e, st\<lparr>mem := hf\<rparr>)
                 | Inr h1 \<Rightarrow>
                     (case add nodes K2 given h1 of
                        Inl (e, hf) \<Rightarrow> Inl (e, st\<lparr>mem := hf\<rparr>)
                      | Inr h2 \<Rightarrow> Inr (st\<lparr>mem := h2\<rparr>))) = Some TypeError"
proof -
  obtain g n where g: "given = ArrRef g" "g < length (arrs h0)" "xs = arrs h0 ! g"
    and n: "nodes = ArrRef n" "n < length (arrs h0)" "ns = arrs h0 ! n"
    using given nodes by (auto simp: array_of_def split: val.splits if_splits)
  have a1: "add given K1 nodes h0 = run_each (add_node K1 nodes) xs h0"
    using add_run_each [OF extends_refl g(2)] g by simp
  show ?thesis
  proof (cases "add given K1 nodes h0")
    case (Inl f)
    then show ?thesis by (cases f) (simp add: thrown_def error_is_TypeError)
  next
    case (Inr h1)
    have no1: "\<not> (\<exists>v\<in>set xs. get_prop h0 v K1 = Inr Undefined)"
      using Inr a1 run_add_fails [of _ xs h0 K1 nodes] by (auto simp: thrown_def)
    then obtain v where v: "v \<in> set ns" "get_prop h0 v K2 = Inr Undefined"
      using lack by blast
    have e1: "extends h0 h1"
      using run_add_extends [OF _ extends_refl] Inr a1 by simp
    have "get_prop h1 v K2 = Inr Undefined"
      using run_add_keeps_lack [of K1 nodes xs h0 h1 v K2] Inr a1 v(2) by simp
    then have "thrown (run_each (add_node K2 given) ns h1) = Some TypeError"
      using run_add_fails v(1) by blast
    then have "thrown (add nodes K2 given h1) = Some TypeError"
      using add_run_each [OF e1 n(2)] n by simp
    then show ?thesis using Inr by (auto simp: thrown_def split: sum.splits)
  qed
qed

text \<open>
  C9, as claimed: the TypeError of \<^verbatim>\<open>addParents\<close>/\<^verbatim>\<open>addChildren\<close> on a node without the
  relation field is the only hard runtime fault of the engine.  The query and the removal
  index the same field without a check: on the family, \<open>children\<close> over the node set
  holding object 4 (which has no relation fields) and \<open>removeChildren([D])\<close> on it fault
  as well.
\<close>

theorem other_operations_fault_too:
  "children \<lparr>bound = ArrRef 11\<rparr> NoFilter None (initial family) = Some (Inl TypeError) \<and>
   thrown (removeChildren \<lparr>bound = ArrRef 11\<rparr> (ArrRef 9) (initial family)) = Some TypeError"
  by (simp add: js_eval family_def)

text \<open>
  C9, amended.  A call to \<^verbatim>\<open>addChildren\<close> or \<^verbatim>\<open>addParents\<close> in which some supplied value,
  or some bound node, lacks the relation field the call appends to fails with a TypeError.
  It is not the only such fault: \<open>children\<close>/\<open>parents\<close> fail the same way when the first
  bound node lacks the field they read, and \<open>removeChildren\<close>/\<open>removeParents\<close> when
  the first supplied value lacks the field they splice (both node lists being non-empty).
\<close>

theorem add_faults_on_missing_field:
  assumes given: "toNodes x (mem st) = (given, h0)" "array_of h0 given = Some xs"
      and nodes: "array_of (mem st) (bound hdl) = Some ns"
  shows "((\<exists>v\<in>set xs. get_prop (mem st) v (lastParentsKey st) = Inr Undefined) \<or>
          (\<exists>v\<in>set ns. get_prop (mem st) v (lastChildrenKey st) = Inr Undefined) \<longrightarrow>
            thrown (addChildren hdl x st) = Some TypeError) \<and>
         ((\<exists>v\<in>set xs. get_prop (mem st) v (lastChildrenKey st) = Inr Undefined) \<or>
          (\<exists>v\<in>set ns. get_prop (mem st) v (lastParentsKey st) = Inr Undefined) \<longrightarrow>
            thrown (addParents hdl x st) = Some TypeError) \<and>
         (ns \<noteq> [] \<and> get_prop (mem st) (hd ns) (lastChildrenKey st) = Inr Undefined \<longrightarrow>
            children hdl flt g st = Some (Inl TypeError)) \<and>
         (ns \<noteq> [] \<and> get_prop (mem st) (hd ns) (lastParentsKey st) = Inr Undefined \<longrightarrow>
            parents hdl flt g st = Some (Inl TypeError)) \<and>
         (xs \<noteq> [] \<and> ns \<noteq> [] \<and> get_prop (mem st) (hd xs) (lastParentsKey st) = Inr Undefined \<longrightarrow>
            thrown (removeChildren hdl x st) = Some TypeError) \<and>
         (xs \<noteq> [] \<and> ns \<noteq> [] \<and> get_prop (mem st) (hd xs) (lastChildrenKey st) = Inr Undefined \<longrightarrow>
            thrown (removeParents hdl x st) = Some TypeError)"
proof -
  have o: "objs h0 = objs (mem st)" and e: "extends (mem st) h0"
    using toNodes_objs [OF given(1)] by simp_all
  have gp: "get_prop h0 v k = get_prop (mem st) v k" for v k
    using o by (rule get_prop_objs)
  have n0: "array_of h0 (bound hdl) = Some ns"
    using nodes e by (auto simp: array_of_def extends_def split: val.splits if_splits)
  have c1: "thrown (addChildren hdl x st) = Some TypeError"
    if "(\<exists>v\<in>set xs. get_prop (mem st) v (lastParentsKey st) = Inr Undefined) \<or>
        (\<exists>v\<in>set ns. get_prop (mem st) v (lastChildrenKey st) = Inr Undefined)"
    using link_fails [OF given(2) n0, of "lastParentsKey st" "lastChildrenKey st" st] that given(1)
    by (simp add: addChildren_def gp)
  have c2: "thrown (addParents hdl x st) = Some TypeError"
    if "(\<exists>v\<in>set xs. get_prop (mem st) v (lastChildrenKey st) = Inr Undefined) \<or>
        (\<exists>v\<in>set ns. get_prop (mem st) v (lastParentsKey st) = Inr Undefined)"
    using link_fails [OF given(2) n0, of "lastChildrenKey st" "lastParentsKey st" st] that given(1)
    by (simp add: addParents_def gp)
  have c3: "get (bound hdl) K flt g (mem st) = Some (Inl TypeError)"
    if "ns \<noteq> []" "get_prop (mem st) (hd ns) K = Inr Undefined" for K
    using that nodes by (cases ns) (simp_all add: get_def get_rec_Cons array_of_def)
  have c4: "thrown (case remove given K1 (bound hdl) h0 of
                   Inl (e, hf) \<Rightarrow> Inl (e, st\<lparr>mem := hf\<rparr>)
                 | Inr h1 \<Rightarrow>
                     (case remove (bound hdl) K2 given h1 of
                        Inl (e, hf) \<Rightarrow> Inl (e, st\<lparr>mem := hf\<rparr>)
                      | Inr h2 \<Rightarrow> Inr (st\<lparr>mem := h2\<rparr>))) = Some TypeError"
    if ne: "xs \<noteq> []" "ns \<noteq> []" and lk: "get_prop (mem st) (hd xs) K1 = Inr Undefined"
    for K1 K2
  proof -
    obtain x1 xs' n1 ns' where l: "xs = x1 # xs'" "ns = n1 # ns'"
      using ne by (auto simp: neq_Nil_conv)
    have "remove given K1 (bound hdl) h0 = Inl (TypeError, h0)"
      using given(2) n0 l lk
      by (auto simp: remove_def forEach_def array_of_def remove_one_def gp
               split: val.splits if_splits)
    then show ?thesis by (simp add: thrown_def)
  qed
  show ?thesis
    using c1 c2 c3 c4 given(1)
    by (simp add: children_def parents_def removeChildren_def removeParents_def)
qed


theorem add_faults_on_missing_field_witness:
  "thrown (addChildren \<lparr>bound = ArrRef 11\<rparr> (ArrRef 11) (initial family)) = Some TypeError \<and>
   thrown (addParents \<lparr>bound = ArrRef 11\<rparr> (ArrRef 11) (initial family)) = Some TypeError \<and>
   children \<lparr>bound = ArrRef 11\<rparr> NoFilter None (initial family) = Some (Inl TypeError) \<and>
   parents \<lparr>bound = ArrRef 11\<rparr> NoFilter None (initial family) = Some (Inl TypeError) \<and>
   thrown (removeChildren \<lparr>bound = ArrRef 11\<rparr> (ArrRef 11) (initial family)) = Some TypeError \<and>
   thrown (removeParents \<lparr>bound = ArrRef 11\<rparr> (ArrRef 11) (initial family)) = Some TypeError"
proof -
  have g: "toNodes (ArrRef 11) (mem (initial family)) = (ArrRef 11, family)"
    and xs: "array_of family (ArrRef 11) = Some [ObjRef 4]"
    and ns: "array_of (mem (initial family)) (bound \<lparr>bound = ArrRef 11\<rparr>) = Some [ObjRef 4]"
    by (simp_all add: js_eval family_def)
  have lack: "get_prop (mem (initial family)) (ObjRef 4) (lastParentsKey (initial family)) = Inr Undefined"
      "get_prop (mem (initial family)) (ObjRef 4) (lastChildrenKey (initial family)) = Inr Undefined"
    by (simp_all add: js_eval family_def)
  show ?thesis
    using add_faults_on_missing_field [OF g xs ns, of NoFilter None] lack
    by simp
qed

section \<open>What add and remove leave alone\<close>

lemma add_frame_refl: "add_frame K S h h"
  by (simp add: add_frame_def)

lemma add_frame_trans:
  "add_frame K S h h1 \<Longrightarrow> add_frame K S h1 h2 \<Longrightarrow> add_frame K S h h2"
  unfolding add_frame_def by (intro conjI allI impI) (simp_all)

lemma add_node_frame:
  assumes "add_node K r v h = Inr h'" and "v \<in> S"
  shows "add_frame K S h h'"
proof -
  from assms(1) obtain a ys where v: "v = ObjRef a"
    and h': "h' = h\<lparr>objs := (objs h)[a := AList.update K (ArrRef (length (arrs h))) (objs h ! a)],
                     arrs := arrs h @ [ys @ concat_arg h r]\<rparr>"
    by (auto simp: add_node_def split: sum.splits option.splits val.splits)
  show ?thesis
    unfolding add_frame_def
  proof (intro conjI allI impI)
    show "length (objs h') = length (objs h)" by (simp add: h')
    show "length (arrs h) \<le> length (arrs h')" by (simp add: h')
    show "lookup (objs h' ! a') k = lookup (objs h ! a') k"
      if "a' < length (objs h)" "k \<noteq> K" for a' k
      using that by (cases "a' = a") (simp_all add: h' lookup_update)
    show "objs h' ! a' = objs h ! a'" if "a' < length (objs h)" "ObjRef a' \<notin> S" for a'
      using that v assms(2) by (cases "a' = a") (auto simp: h')
    show "arrs h' ! b = arrs h ! b" if "b < length (arrs h)" for b
      using that by (simp add: h' nth_append)
  qed
qed

lemma add_node_fault: "add_node K r v h = Inl (e, h') \<Longrightarrow> h' = h"
  by (auto simp: add_node_def split: sum.splits option.splits val.splits)

lemma run_add_frame:
  "set vs \<subseteq> S \<Longrightarrow> add_frame K S h (left_behind (run_each (add_node K r) vs h))"
proof (induction vs arbitrary: h)
  case Nil
  then show ?case by (simp add: add_frame_refl left_behind_def)
next
  case (Cons v vs)
  show ?case
  proof (cases "add_node K r v h")
    case (Inl f)
    obtain e h1 where f: "f = (e, h1)" by (cases f)
    then have "h1 = h" using Inl add_node_fault by blast
    then show ?thesis using Inl f by (simp add: left_behind_def add_frame_refl)
  next
    case (Inr h1)
    have "add_frame K S h h1" using add_node_frame [OF Inr] Cons.prems by simp
    moreover have "add_frame K S h1 (left_behind (run_each (add_node K r) vs h1))"
      using Cons.IH Cons.prems by simp
    ultimately show ?thesis using Inr add_frame_trans by simp
  qed
qed

lemma remove_frame_refl: "remove_frame K S h h"
  by (simp add: remove_frame_def)

lemma remove_frame_trans:
  assumes "remove_frame K S h h1" and "remove_frame K S h1 h2"
  shows "remove_frame K S h h2"
proof -
  have o: "objs h1 = objs h" "objs h2 = objs h" "length (arrs h1) = length (arrs h)"
      "length (arrs h2) = length (arrs h)"
    using assms by (simp_all add: remove_frame_def)
  have gp: "get_prop h1 v K = get_prop h v K" for v
    using o(1) by (cases v) (simp_all add: get_prop_def)
  show ?thesis
    unfolding remove_frame_def
  proof (intro conjI allI impI)
    show "objs h2 = objs h" "length (arrs h2) = length (arrs h)" by (rule o)+
    show "set (arrs h2 ! b) \<subseteq> set (arrs h ! b)" if "b < length (arrs h)" for b
    proof -
      have "set (arrs h2 ! b) \<subseteq> set (arrs h1 ! b)" "set (arrs h1 ! b) \<subseteq> set (arrs h ! b)"
        using assms that o by (simp_all add: remove_frame_def)
      then show ?thesis by blast
    qed
    show "arrs h2 ! b = arrs h ! b"
      if "b < length (arrs h)" "\<forall>v\<in>S. get_prop h v K \<noteq> Inr (ArrRef b)" for b
    proof -
      have "arrs h1 ! b = arrs h ! b" using assms(1) that by (simp add: remove_frame_def)
      moreover have "arrs h2 ! b = arrs h1 ! b"
        using assms(2) that o gp by (simp add: remove_frame_def)
      ultimately show ?thesis by simp
    qed
  qed
qed

lemma set_splice: "set (splice xs i d) \<subseteq> set xs"
proof -
  have "set (take m xs) \<union> set (drop n xs) \<subseteq> set xs" for m n
    using set_take_subset [of m xs] set_drop_subset [of n xs] by blast
  then show ?thesis by (simp add: splice_def Let_def)
qed

lemma remove_one_frame:
  assumes "remove_one K v x h = Inr h'" and "v \<in> S"
  shows "remove_frame K S h h'"
proof -
  from assms(1) obtain b where b: "get_prop h v K = Inr (ArrRef b)" "b < length (arrs h)"
    and h': "h' = h\<lparr>arrs := (arrs h)[b := splice (arrs h ! b) (indexOf (arrs h ! b) x) 1]\<rparr>"
    by (auto simp: remove_one_def split: sum.splits val.splits if_splits)
  show ?thesis
    unfolding remove_frame_def
  proof (intro conjI allI impI)
    show "objs h' = objs h" "length (arrs h') = length (arrs h)" by (simp_all add: h')
    show "set (arrs h' ! c) \<subseteq> set (arrs h ! c)" if "c < length (arrs h)" for c
      using that set_splice by (cases "c = b") (simp_all add: h')
    show "arrs h' ! c = arrs h ! c"
      if "c < length (arrs h)" "\<forall>v\<in>S. get_prop h v K \<noteq> Inr (ArrRef c)" for c
    proof -
      have "c \<noteq> b" using that(2) assms(2) b(1) by auto
      then show ?thesis by (simp add: h')
    qed
  qed
qed

lemma remove_one_fault: "remove_one K v x h = Inl (e, h') \<Longrightarrow> h' = h"
  by (auto simp: remove_one_def split: sum.splits val.splits if_splits)

lemma inner_remove_frame:
  "v \<in> S \<Longrightarrow> remove_frame K S h (left_behind (forEach_from (remove_one K v) rb k n h))"
proof (induction n arbitrary: k h)
  case 0
  then show ?case by (simp add: remove_frame_refl left_behind_def)
next
  case (Suc n)
  show ?case
  proof (cases "rb < length (arrs h) \<and> k < length (arrs h ! rb)")
    case True
    show ?thesis
    proof (cases "remove_one K v (arrs h ! rb ! k) h")
      case (Inl f)
      obtain e h1 where f: "f = (e, h1)" by (cases f)
      then have "h1 = h" using Inl remove_one_fault by blast
      then show ?thesis using True Inl f by (simp add: left_behind_def remove_frame_refl)
    next
      case (Inr h1)
      have "remove_frame K S h h1" using remove_one_frame [OF Inr Suc.prems] .
      moreover have "remove_frame K S h1
                       (left_behind (forEach_from (remove_one K v) rb (Suc k) n h1))"
        using Suc.IH [OF Suc.prems] .
      ultimately show ?thesis using True Inr remove_frame_trans by simp
    qed
  next
    case False
    then show ?thesis using Suc.IH [OF Suc.prems, of h "Suc k"] by auto
  qed
qed

lemma inner_forEach_frame:
  "v \<in> S \<Longrightarrow> remove_frame K S h (left_behind (forEach r (remove_one K v) h))"
proof (cases r)
  case (ArrRef b)
  assume "v \<in> S"
  then show ?thesis
    using ArrRef inner_remove_frame [of v S K h b 0]
    by (simp add: forEach_def left_behind_def remove_frame_refl)
qed (simp_all add: forEach_def left_behind_def remove_frame_refl)

lemma outer_remove_frame:
  assumes "remove_frame K S h0 h" and "nb < length (arrs h0)" and "set (arrs h0 ! nb) \<subseteq> S"
  shows "remove_frame K S h0
           (left_behind (forEach_from (\<lambda>v. forEach r (remove_one K v)) nb k n h))"
  using assms(1)
proof (induction n arbitrary: k h)
  case 0
  then show ?case by (simp add: left_behind_def)
next
  case (Suc n)
  have len: "length (arrs h) = length (arrs h0)" and sub: "set (arrs h ! nb) \<subseteq> set (arrs h0 ! nb)"
    using Suc.prems assms(2) by (simp_all add: remove_frame_def)
  show ?case
  proof (cases "k < length (arrs h ! nb)")
    case True
    then have vS: "arrs h ! nb ! k \<in> S" using sub assms(3) nth_mem by blast
    have step: "remove_frame K S h
                  (left_behind (forEach r (remove_one K (arrs h ! nb ! k)) h))"
      using inner_forEach_frame [OF vS] .
    show ?thesis
    proof (cases "forEach r (remove_one K (arrs h ! nb ! k)) h")
      case (Inl f)
      obtain e h1 where f: "f = (e, h1)" by (cases f)
      have "remove_frame K S h h1" using step Inl f by (simp add: left_behind_def)
      then have "remove_frame K S h0 h1" using Suc.prems remove_frame_trans by blast
      then show ?thesis using True len assms(2) Inl f by (simp add: left_behind_def)
    next
      case (Inr h1)
      have "remove_frame K S h h1" using step Inr by (simp add: left_behind_def)
      then have "remove_frame K S h0 h1" using Suc.prems remove_frame_trans by blast
      then show ?thesis using True len assms(2) Inr Suc.IH [of h1 "Suc k"] by simp
    qed
  next
    case False
    then show ?thesis using Suc.IH [OF Suc.prems, of "Suc k"] by auto
  qed
qed




section \<open>Linking and unlinking again\<close>

text \<open>
  While \<^verbatim>\<open>addChildren\<close> and \<^verbatim>\<open>removeChildren\<close> run, the store keeps the arrays it had at
  the start, has no dangling array reference, and no array allocated since then is held by
  two fields (\<open>inv\<close>).  Under this invariant each step acts on one relation list only.
\<close>

subsection \<open>One step of add\<close>

lemma add_node_effect:
  assumes i: "inv h0 h" and ys: "rel_list h v K = Some ys" and rs: "array_of h r = Some rs"
  shows "\<exists>h'. add_node K r v h = Inr h' \<and> inv h0 h' \<and>
           (\<forall>w k. rel_list h' w k = (if w = v \<and> k = K then Some (ys @ rs) else rel_list h w k)) \<and>
           (\<forall>w k. fresh_at (length (arrs h0)) h w k \<or> (w = v \<and> k = K)
                     \<longrightarrow> fresh_at (length (arrs h0)) h' w k)"
proof -
  from ys obtain a l where v: "v = ObjRef a" and a: "a < length (objs h)"
    and l: "lookup (objs h ! a) K = ArrRef l" "l < length (arrs h)" "arrs h ! l = ys"
    by (rule rel_list_SomeD)
  define h' where "h' = h\<lparr>objs := (objs h)[a := AList.update K (ArrRef (length (arrs h))) (objs h ! a)],
                          arrs := arrs h @ [ys @ rs]\<rparr>"
  have ext: "extends h0 h" and cl: "closed h" and un: "unshared (length (arrs h0)) h"
    using i by (simp_all add: inv_def)
  have run: "add_node K r v h = Inr h'"
    using v a l rs by (simp add: add_node_def get_prop_def array_of_def concat_arg_def h'_def)
  have len: "length (objs h') = length (objs h)" "length (arrs h') = Suc (length (arrs h))"
    by (simp_all add: h'_def)
  have look: "lookup (objs h' ! a') k =
                (if a' = a \<and> k = K then ArrRef (length (arrs h)) else lookup (objs h ! a') k)"
    if "a' < length (objs h)" for a' k
    using that by (cases "a' = a") (simp_all add: h'_def lookup_update)
  have old: "arrs h' ! b = arrs h ! b" if "b < length (arrs h)" for b
    using that by (simp add: h'_def nth_append)
  have new: "arrs h' ! length (arrs h) = ys @ rs"
    by (simp add: h'_def)
  have ext': "extends h0 h'"
    using ext old len by (simp add: extends_def)
  have cl': "closed h'"
    unfolding closed_def
  proof (intro allI impI)
    fix a' k b assume "a' < length (objs h')" "lookup (objs h' ! a') k = ArrRef b"
    then show "b < length (arrs h')"
      using look [of a' k] len closedD [OF cl, of a' k b] by (auto split: if_splits)
  qed
  have un': "unshared (length (arrs h0)) h'"
    unfolding unshared_def
  proof (intro allI impI)
    fix a1 k1 a2 k2 b
    assume p: "a1 < length (objs h')" "a2 < length (objs h')" "length (arrs h0) \<le> b"
      "lookup (objs h' ! a1) k1 = ArrRef b" "lookup (objs h' ! a2) k2 = ArrRef b"
    show "a1 = a2 \<and> k1 = k2"
    proof (cases "(a1 = a \<and> k1 = K) \<or> (a2 = a \<and> k2 = K)")
      case True
      then have b: "b = length (arrs h)"
        using p look [of a1 k1] look [of a2 k2] len by auto
      have "a1 = a \<and> k1 = K"
        using p(1,4) look [of a1 k1] len closedD [OF cl, of a1 k1 b] b by (auto split: if_splits)
      moreover have "a2 = a \<and> k2 = K"
        using p(2,5) look [of a2 k2] len closedD [OF cl, of a2 k2 b] b by (auto split: if_splits)
      ultimately show ?thesis by simp
    next
      case False
      then show ?thesis
        using p look [of a1 k1] look [of a2 k2] len unsharedD [OF un, of a1 a2 b k1 k2]
        by (auto split: if_splits)
    qed
  qed
  have rl: "rel_list h' w k = (if w = v \<and> k = K then Some (ys @ rs) else rel_list h w k)" for w k
  proof (cases w)
    case (ObjRef a')
    show ?thesis
    proof (cases "a' < length (objs h)")
      case True
      show ?thesis
      proof (cases "a' = a \<and> k = K")
        case True
        then show ?thesis
          using ObjRef v a len new look [of a K]
          by (simp add: rel_list_ObjRef array_of_def)
      next
        case False
        have "array_of h' (lookup (objs h ! a') k) = array_of h (lookup (objs h ! a') k)"
          using closedD [OF cl \<open>a' < length (objs h)\<close>, of k] old len
          by (auto simp: array_of_def split: val.splits)
        then show ?thesis
          using False ObjRef v True len look [of a' k]
          by (auto simp: rel_list_ObjRef)
      qed
    next
      case False
      then show ?thesis using ObjRef v a len by (auto simp: rel_list_ObjRef)
    qed
  qed (use v in \<open>simp_all add: rel_list_non_object\<close>)
  have fr: "fresh_at (length (arrs h0)) h' w k"
    if "fresh_at (length (arrs h0)) h w k \<or> (w = v \<and> k = K)" for w k
  proof (cases "w = v \<and> k = K")
    case True
    then show ?thesis
      using v a len look [of a K] ext by (simp add: fresh_at_ObjRef extends_def)
  next
    case False
    then have f: "fresh_at (length (arrs h0)) h w k" using that by blast
    then obtain a' b where "w = ObjRef a'" "a' < length (objs h)"
        "lookup (objs h ! a') k = ArrRef b" "length (arrs h0) \<le> b"
      by (rule fresh_atD)
    then show ?thesis
      using False v len look [of a' k] by (auto simp: fresh_at_ObjRef)
  qed
  show ?thesis
    using run ext' cl' un' rl fr by (auto simp: inv_def)
qed

subsection \<open>The loop of add\<close>

lemma inv_array_of:
  "inv h0 h \<Longrightarrow> b < length (arrs h0) \<Longrightarrow> array_of h (ArrRef b) = Some (arrs h0 ! b)"
  by (simp add: inv_def extends_def array_of_def)

lemma run_add_effect:
  assumes "inv h0 h" and "\<forall>v\<in>set vs. rel_list h v K \<noteq> None" and "rb < length (arrs h0)"
  shows "\<exists>h'. run_each (add_node K (ArrRef rb)) vs h = Inr h' \<and> inv h0 h' \<and>
           (\<forall>w k. rel_list h' w k =
              (if k = K
               then map_option (\<lambda>ys. ys @ copies (count_list vs w) (arrs h0 ! rb)) (rel_list h w K)
               else rel_list h w k)) \<and>
           (\<forall>w k. fresh_at (length (arrs h0)) h w k \<or> (k = K \<and> w \<in> set vs)
                     \<longrightarrow> fresh_at (length (arrs h0)) h' w k)"
  using assms(1,2)
proof (induction vs arbitrary: h)
  case Nil
  then show ?case by (simp add: option.map_ident)
next
  case (Cons v vs)
  obtain ys where ys: "rel_list h v K = Some ys" using Cons.prems(2) by auto
  have rs: "array_of h (ArrRef rb) = Some (arrs h0 ! rb)"
    using inv_array_of [OF Cons.prems(1) assms(3)] .
  obtain h1 where h1: "add_node K (ArrRef rb) v h = Inr h1" "inv h0 h1"
    and r1: "\<And>w k. rel_list h1 w k =
               (if w = v \<and> k = K then Some (ys @ arrs h0 ! rb) else rel_list h w k)"
    and f1: "\<And>w k. fresh_at (length (arrs h0)) h w k \<or> (w = v \<and> k = K)
                     \<Longrightarrow> fresh_at (length (arrs h0)) h1 w k"
    using add_node_effect [OF Cons.prems(1) ys rs] by blast
  have "\<forall>v\<in>set vs. rel_list h1 v K \<noteq> None"
    using Cons.prems(2) r1 by simp
  then obtain h' where h': "run_each (add_node K (ArrRef rb)) vs h1 = Inr h'" "inv h0 h'"
    and r': "\<And>w k. rel_list h' w k =
              (if k = K
               then map_option (\<lambda>ys. ys @ copies (count_list vs w) (arrs h0 ! rb)) (rel_list h1 w K)
               else rel_list h1 w k)"
    and f': "\<And>w k. fresh_at (length (arrs h0)) h1 w k \<or> (k = K \<and> w \<in> set vs)
                     \<Longrightarrow> fresh_at (length (arrs h0)) h' w k"
    using Cons.IH [OF h1(2)] by blast
  have r: "rel_list h' w k =
              (if k = K
               then map_option (\<lambda>ys. ys @ copies (count_list (v # vs) w) (arrs h0 ! rb)) (rel_list h w K)
               else rel_list h w k)" for w k
  proof (cases "k = K")
    case False
    then show ?thesis using r' [of w k] r1 [of w k] by simp
  next
    case True
    show ?thesis
    proof (cases "w = v")
      case True
      then show ?thesis using \<open>k = K\<close> r' [of v K] r1 [of v K] ys by simp
    next
      case False
      then show ?thesis using \<open>k = K\<close> r' [of w K] r1 [of w K] by simp
    qed
  qed
  have f: "fresh_at (length (arrs h0)) h' w k"
    if "fresh_at (length (arrs h0)) h w k \<or> (k = K \<and> w \<in> set (v # vs))" for w k
  proof -
    have "fresh_at (length (arrs h0)) h1 w k \<or> (k = K \<and> w \<in> set vs)"
      using that f1 [of w k] by auto
    then show ?thesis by (rule f')
  qed
  have run: "run_each (add_node K (ArrRef rb)) (v # vs) h = Inr h'"
    using h1(1) h'(1) by simp
  show ?case
  proof (intro exI conjI allI impI)
    show "run_each (add_node K (ArrRef rb)) (v # vs) h = Inr h'" by (rule run)
    show "inv h0 h'" by (rule h'(2))
    show "rel_list h' w k =
              (if k = K
               then map_option (\<lambda>ys. ys @ copies (count_list (v # vs) w) (arrs h0 ! rb)) (rel_list h w K)
               else rel_list h w k)" for w k by (rule r)
    show "fresh_at (length (arrs h0)) h' w k"
      if "fresh_at (length (arrs h0)) h w k \<or> (k = K \<and> w \<in> set (v # vs))" for w k
      using that by (rule f)
  qed
qed

subsection \<open>One step of remove and its loops\<close>

lemma remove_one_effect:
  assumes i: "inv h0 h" and f: "fresh_at (length (arrs h0)) h v K"
  shows "\<exists>h' ys. rel_list h v K = Some ys \<and> remove_one K v x h = Inr h' \<and> inv h0 h' \<and>
           objs h' = objs h \<and>
           (\<forall>w k. rel_list h' w k =
              (if w = v \<and> k = K then Some (splice_out x ys) else rel_list h w k))"
proof -
  from f obtain a b where v: "v = ObjRef a" and a: "a < length (objs h)"
    and b: "lookup (objs h ! a) K = ArrRef b" "length (arrs h0) \<le> b"
    by (rule fresh_atD)
  have ext: "extends h0 h" and cl: "closed h" and un: "unshared (length (arrs h0)) h"
    using i by (simp_all add: inv_def)
  have bl: "b < length (arrs h)" using closedD [OF cl a b(1)] .
  define ys where "ys = arrs h ! b"
  define h' where "h' = h\<lparr>arrs := (arrs h)[b := splice_out x ys]\<rparr>"
  have ys: "rel_list h v K = Some ys"
    using v a b bl by (simp add: rel_list_ObjRef array_of_def ys_def)
  have run: "remove_one K v x h = Inr h'"
    using v a b bl by (simp add: remove_one_def get_prop_def h'_def ys_def splice_out_def)
  have o: "objs h' = objs h" and len: "length (arrs h') = length (arrs h)"
    by (simp_all add: h'_def)
  have ext': "extends h0 h'"
    using ext b(2) by (auto simp: extends_def h'_def)
  have cl': "closed h'"
    using cl by (simp add: closed_def h'_def)
  have un': "unshared (length (arrs h0)) h'"
    using un by (simp add: unshared_def h'_def)
  have rl: "rel_list h' w k = (if w = v \<and> k = K then Some (splice_out x ys) else rel_list h w k)"
    for w k
  proof (cases w)
    case (ObjRef a')
    show ?thesis
    proof (cases "a' < length (objs h)")
      case True
      show ?thesis
      proof (cases "lookup (objs h ! a') k = ArrRef b")
        case True
        then have "a' = a \<and> k = K"
          using unsharedD [OF un \<open>a' < length (objs h)\<close> a b(2) True b(1)] by simp
        then show ?thesis
          using ObjRef v a b bl by (simp add: rel_list_ObjRef array_of_def h'_def)
      next
        case False
        then have "\<not> (w = v \<and> k = K)" using ObjRef v b by auto
        moreover have "array_of h' (lookup (objs h ! a') k) = array_of h (lookup (objs h ! a') k)"
          using False by (auto simp: array_of_def h'_def split: val.splits)
        ultimately show ?thesis
          using ObjRef \<open>a' < length (objs h)\<close> by (auto simp: rel_list_ObjRef o)
      qed
    next
      case False
      then show ?thesis using ObjRef v a by (auto simp: rel_list_ObjRef o)
    qed
  qed (use v in \<open>simp_all add: rel_list_non_object\<close>)
  have i': "inv h0 h'"
    using ext' cl' un' by (simp add: inv_def)
  show ?thesis
  proof (intro exI conjI allI)
    show "rel_list h v K = Some ys" by (rule ys)
    show "remove_one K v x h = Inr h'" by (rule run)
    show "inv h0 h'" by (rule i')
    show "objs h' = objs h" by (rule o)
    show "rel_list h' w k = (if w = v \<and> k = K then Some (splice_out x ys) else rel_list h w k)"
      for w k by (rule rl)
  qed
qed

lemma fresh_at_objs: "objs h' = objs h \<Longrightarrow> fresh_at n h' v k = fresh_at n h v k"
  by (cases v) (simp_all add: fresh_at_def get_prop_def)

lemma run_remove_one_effect:
  assumes "inv h0 h" and "fresh_at (length (arrs h0)) h v K"
  shows "\<exists>h'. run_each (remove_one K v) xs h = Inr h' \<and> inv h0 h' \<and> objs h' = objs h \<and>
           (\<forall>w k. rel_list h' w k =
              (if w = v \<and> k = K then map_option (fold splice_out xs) (rel_list h v K)
               else rel_list h w k))"
  using assms
proof (induction xs arbitrary: h)
  case Nil
  then show ?case by (simp add: option.map_id)
next
  case (Cons x xs)
  obtain h1 ys where ys: "rel_list h v K = Some ys"
    and h1: "remove_one K v x h = Inr h1" "inv h0 h1" "objs h1 = objs h"
    and r1: "\<And>w k. rel_list h1 w k =
              (if w = v \<and> k = K then Some (splice_out x ys) else rel_list h w k)"
    using remove_one_effect [OF Cons.prems] by blast
  have "fresh_at (length (arrs h0)) h1 v K"
    using Cons.prems(2) fresh_at_objs [OF h1(3)] by simp
  then obtain h' where h': "run_each (remove_one K v) xs h1 = Inr h'" "inv h0 h'" "objs h' = objs h1"
    and r': "\<And>w k. rel_list h' w k =
              (if w = v \<and> k = K then map_option (fold splice_out xs) (rel_list h1 v K)
               else rel_list h1 w k)"
    using Cons.IH [OF h1(2)] by blast
  have r: "rel_list h' w k =
              (if w = v \<and> k = K then map_option (fold splice_out (x # xs)) (rel_list h v K)
               else rel_list h w k)" for w k
  proof (cases "w = v \<and> k = K")
    case True
    then show ?thesis using r' [of v K] r1 [of v K] ys by simp
  next
    case False
    then have "rel_list h' w k = rel_list h1 w k" "rel_list h1 w k = rel_list h w k"
      using r' [of w k] r1 [of w k] by auto
    then show ?thesis using False by auto
  qed
  show ?case
  proof (intro exI conjI allI)
    show "run_each (remove_one K v) (x # xs) h = Inr h'" using h1(1) h'(1) by simp
    show "inv h0 h'" by (rule h'(2))
    show "objs h' = objs h" using h'(3) h1(3) by simp
    show "rel_list h' w k =
              (if w = v \<and> k = K then map_option (fold splice_out (x # xs)) (rel_list h v K)
               else rel_list h w k)" for w k by (rule r)
  qed
qed

lemma run_remove_effect:
  assumes "inv h0 h" and "\<forall>v\<in>set vs. fresh_at (length (arrs h0)) h v K"
  shows "\<exists>h'. run_each (\<lambda>v. run_each (remove_one K v) xs) vs h = Inr h' \<and> inv h0 h' \<and>
           objs h' = objs h \<and>
           (\<forall>w k. rel_list h' w k =
              (if k = K
               then map_option (fold splice_out (copies (count_list vs w) xs)) (rel_list h w K)
               else rel_list h w k))"
  using assms
proof (induction vs arbitrary: h)
  case Nil
  then show ?case by (simp add: option.map_id)
next
  case (Cons v vs)
  have fv: "fresh_at (length (arrs h0)) h v K" using Cons.prems(2) by simp
  obtain h1 where h1: "run_each (remove_one K v) xs h = Inr h1" "inv h0 h1" "objs h1 = objs h"
    and r1: "\<And>w k. rel_list h1 w k =
              (if w = v \<and> k = K then map_option (fold splice_out xs) (rel_list h v K)
               else rel_list h w k)"
    using run_remove_one_effect [OF Cons.prems(1) fv] by blast
  have "\<forall>v\<in>set vs. fresh_at (length (arrs h0)) h1 v K"
    using Cons.prems(2) fresh_at_objs [OF h1(3)] by simp
  then obtain h' where h': "run_each (\<lambda>v. run_each (remove_one K v) xs) vs h1 = Inr h'"
      "inv h0 h'" "objs h' = objs h1"
    and r': "\<And>w k. rel_list h' w k =
              (if k = K
               then map_option (fold splice_out (copies (count_list vs w) xs)) (rel_list h1 w K)
               else rel_list h1 w k)"
    using Cons.IH [OF h1(2)] by blast
  have r: "rel_list h' w k =
              (if k = K
               then map_option (fold splice_out (copies (count_list (v # vs) w) xs)) (rel_list h w K)
               else rel_list h w k)" for w k
  proof (cases "k = K")
    case False
    then show ?thesis using r' [of w k] r1 [of w k] by simp
  next
    case True
    show ?thesis
    proof (cases "w = v")
      case True
      then show ?thesis
        using \<open>k = K\<close> r' [of v K] r1 [of v K]
        by (cases "rel_list h v K") simp_all
    next
      case False
      then show ?thesis using \<open>k = K\<close> r' [of w K] r1 [of w K] by simp
    qed
  qed
  show ?case
  proof (intro exI conjI allI)
    show "run_each (\<lambda>v. run_each (remove_one K v) xs) (v # vs) h = Inr h'"
      using h1(1) h'(1) by simp
    show "inv h0 h'" by (rule h'(2))
    show "objs h' = objs h" using h'(3) h1(3) by simp
    show "rel_list h' w k =
              (if k = K
               then map_option (fold splice_out (copies (count_list (v # vs) w) xs)) (rel_list h w K)
               else rel_list h w k)" for w k by (rule r)
  qed
qed

lemma remove_one_keeps:
  assumes "inv h0 h" and "fresh_at (length (arrs h0)) h v K" and "remove_one K v x h = Inr h'"
  shows "inv h0 h' \<and> objs h' = objs h"
  using remove_one_effect [OF assms(1,2), of x] assms(3) by auto

lemma inner_remove_run_each:
  assumes "inv h0 h" and "fresh_at (length (arrs h0)) h v K" and "rb < length (arrs h0)"
  shows "forEach (ArrRef rb) (remove_one K v) h = run_each (remove_one K v) (arrs h0 ! rb) h"
proof (rule forEach_snapshot
    [where P = "\<lambda>h. inv h0 h \<and> fresh_at (length (arrs h0)) h v K"])
  show "inv h0 h \<and> fresh_at (length (arrs h0)) h v K" using assms by simp
  show "inv h0 h' \<and> fresh_at (length (arrs h0)) h' v K"
    if "inv h0 h \<and> fresh_at (length (arrs h0)) h v K" "remove_one K v x h = Inr h'" for x h h'
    using remove_one_keeps [of h0 h v K x h'] that fresh_at_objs [of h' h] by simp
  show "rb < length (arrs h) \<and> arrs h ! rb = arrs h0 ! rb"
    if "inv h0 h \<and> fresh_at (length (arrs h0)) h v K" for h
    using that assms(3) by (simp add: inv_def extends_def)
qed

lemma inner_remove_keeps:
  assumes "inv h0 h" and "fresh_at (length (arrs h0)) h v K"
      and "run_each (remove_one K v) xs h = Inr h'"
  shows "inv h0 h' \<and> objs h' = objs h"
  using run_remove_one_effect [OF assms(1,2), of xs] assms(3) by auto

lemma remove_run_each:
  assumes i: "inv h0 h" and n: "n < length (arrs h0)" and rb: "rb < length (arrs h0)"
      and f: "\<forall>v\<in>set (arrs h0 ! n). fresh_at (length (arrs h0)) h v K"
  shows "remove (ArrRef n) K (ArrRef rb) h =
           run_each (\<lambda>v. run_each (remove_one K v) (arrs h0 ! rb)) (arrs h0 ! n) h"
proof -
  let ?P = "\<lambda>h. inv h0 h \<and> (\<forall>v\<in>set (arrs h0 ! n). fresh_at (length (arrs h0)) h v K)"
  have P: "?P h" using i f by simp
  have inner: "forEach (ArrRef rb) (remove_one K v) h = run_each (remove_one K v) (arrs h0 ! rb) h"
    if "?P h" "v \<in> set (arrs h0 ! n)" for v h
    using that inner_remove_run_each [of h0 h v K rb] rb by simp
  have keep: "?P h'"
    if "?P h" "v \<in> set (arrs h0 ! n)" "run_each (remove_one K v) (arrs h0 ! rb) h = Inr h'"
    for v h h'
  proof -
    have "inv h0 h' \<and> objs h' = objs h"
      using inner_remove_keeps [of h0 h v K "arrs h0 ! rb" h'] that by simp
    then show ?thesis using that(1) fresh_at_objs [of h' h] by simp
  qed
  have "forEach (ArrRef n) (\<lambda>v. forEach (ArrRef rb) (remove_one K v)) h
          = run_each (\<lambda>v. forEach (ArrRef rb) (remove_one K v)) (arrs h0 ! n) h"
  proof (rule forEach_snapshot [where P = ?P])
    show "?P h" by (rule P)
    show "?P h'"
      if "?P h" "v \<in> set (arrs h0 ! n)" "forEach (ArrRef rb) (remove_one K v) h = Inr h'"
      for v h h'
      using keep [of h v h'] inner [of h v] that by simp
    show "n < length (arrs h) \<and> arrs h ! n = arrs h0 ! n" if "?P h" for h
      using that n by (simp add: inv_def extends_def)
  qed
  also have "\<dots> = run_each (\<lambda>v. run_each (remove_one K v) (arrs h0 ! rb)) (arrs h0 ! n) h"
  proof (rule run_each_cong [where P = ?P])
    show "?P h" by (rule P)
    show "forEach (ArrRef rb) (remove_one K v) h = run_each (remove_one K v) (arrs h0 ! rb) h"
      if "?P h" "v \<in> set (arrs h0 ! n)" for v h
      using that by (rule inner)
    show "?P h'"
      if "?P h" "v \<in> set (arrs h0 ! n)" "run_each (remove_one K v) (arrs h0 ! rb) h = Inr h'"
      for v h h'
      using that by (rule keep)
  qed
  finally show ?thesis by (simp add: remove_def)
qed

lemma fold_splice_out_copies_end:
  "(0 < m \<longrightarrow> set rs \<inter> set ys = {}) \<Longrightarrow> fold splice_out (copies m rs) (ys @ copies m rs) = ys"
  using fold_splice_out_copies [of m rs ys "[]"] by simp

lemma closed_inv: "closed h \<Longrightarrow> inv h h"
  by (auto simp: inv_def extends_def unshared_def closed_def dest: leD)

lemma no_dangling_closed: "no_dangling h \<Longrightarrow> closed h"
  unfolding closed_def
proof (intro allI impI)
  fix a k b
  assume nd: "no_dangling h" and a: "a < length (objs h)" and l: "lookup (objs h ! a) k = ArrRef b"
  have "objs h ! a \<in> set (objs h)" using a by simp
  moreover have "(k, ArrRef b) \<in> set (objs h ! a)"
    using l by (auto simp: lookup_def split: option.splits dest: map_of_SomeD)
  ultimately show "b < length (arrs h)"
    using nd by (fastforce simp: no_dangling_def list_all_iff)
qed

subsection \<open>What addChildren appends\<close>

text \<open>
  With two different key names, \<open>addChildren(X)\<close> appends the bound nodes to the parents
  list of every supplied node and the supplied nodes to the children list of every bound
  node, once for each occurrence of the node in its sequence, and changes no other list.
  For a handle over \<open>{a}\<close> and \<open>X = [b]\<close> that is one \<open>a\<close> more among the parents of
  \<open>b\<close> and one \<open>b\<close> more among the children of \<open>a\<close>.
\<close>

lemma add_both:
  assumes cl: "closed h0" and n: "n < length (arrs h0)" and x: "x < length (arrs h0)"
      and hp: "\<forall>v\<in>set (arrs h0 ! x). rel_list h0 v pk \<noteq> None"
      and hc: "\<forall>v\<in>set (arrs h0 ! n). rel_list h0 v ck \<noteq> None"
      and ne: "pk \<noteq> ck"
  shows "\<exists>h1 h2.
           add (ArrRef x) pk (ArrRef n) h0 = Inr h1 \<and>
           add (ArrRef n) ck (ArrRef x) h1 = Inr h2 \<and>
           (\<forall>w k. rel_list h2 w k =
              (if k = pk
               then map_option (\<lambda>ys. ys @ copies (count_list (arrs h0 ! x) w) (arrs h0 ! n))
                      (rel_list h0 w pk)
               else if k = ck
               then map_option (\<lambda>ys. ys @ copies (count_list (arrs h0 ! n) w) (arrs h0 ! x))
                      (rel_list h0 w ck)
               else rel_list h0 w k))"
proof -
  let ?xs = "arrs h0 ! x" and ?ns = "arrs h0 ! n"
  have i0: "inv h0 h0" using cl by (rule closed_inv)
  obtain h1 where h1: "run_each (add_node pk (ArrRef n)) ?xs h0 = Inr h1" "inv h0 h1"
    and r1: "\<And>w k. rel_list h1 w k =
               (if k = pk then map_option (\<lambda>ys. ys @ copies (count_list ?xs w) ?ns) (rel_list h0 w pk)
                else rel_list h0 w k)"
    using run_add_effect [OF i0 hp n] by blast
  have a1: "add (ArrRef x) pk (ArrRef n) h0 = Inr h1"
    using add_run_each [OF extends_refl x, of pk "ArrRef n"] h1(1) by simp
  have hc1: "\<forall>v\<in>set ?ns. rel_list h1 v ck \<noteq> None"
    using hc hp r1 by (auto split: if_splits)
  obtain h2 where h2: "run_each (add_node ck (ArrRef x)) ?ns h1 = Inr h2"
    and r2: "\<And>w k. rel_list h2 w k =
               (if k = ck then map_option (\<lambda>ys. ys @ copies (count_list ?ns w) ?xs) (rel_list h1 w ck)
                else rel_list h1 w k)"
    using run_add_effect [OF h1(2) hc1 x] by blast
  have e1: "extends h0 h1" using h1(2) by (simp add: inv_def)
  have a2: "add (ArrRef n) ck (ArrRef x) h1 = Inr h2"
    using add_run_each [OF e1 n, of ck "ArrRef x"] h2 by simp
  have r: "rel_list h2 w k =
              (if k = pk
               then map_option (\<lambda>ys. ys @ copies (count_list ?xs w) ?ns) (rel_list h0 w pk)
               else if k = ck
               then map_option (\<lambda>ys. ys @ copies (count_list ?ns w) ?xs) (rel_list h0 w ck)
               else rel_list h0 w k)" for w k
    using r2 [of w k] r1 [of w k] r1 [of w ck] ne by auto
  show ?thesis
  proof (intro exI conjI allI)
    show "add (ArrRef x) pk (ArrRef n) h0 = Inr h1" by (rule a1)
    show "add (ArrRef n) ck (ArrRef x) h1 = Inr h2" by (rule a2)
    show "rel_list h2 w k =
              (if k = pk
               then map_option (\<lambda>ys. ys @ copies (count_list ?xs w) ?ns) (rel_list h0 w pk)
               else if k = ck
               then map_option (\<lambda>ys. ys @ copies (count_list ?ns w) ?xs) (rel_list h0 w ck)
               else rel_list h0 w k)" for w k by (rule r)
  qed
qed

lemma addChildren_links:
  assumes nd: "no_dangling (mem st)"
      and nodes: "array_of (mem st) (bound hdl) = Some ns"
      and given: "array_of (mem st) x = Some xs"
      and hp: "\<forall>v\<in>set xs. rel_list (mem st) v (lastParentsKey st) \<noteq> None"
      and hc: "\<forall>v\<in>set ns. rel_list (mem st) v (lastChildrenKey st) \<noteq> None"
      and ne: "lastParentsKey st \<noteq> lastChildrenKey st"
  shows "\<exists>st1. addChildren hdl x st = Inr st1 \<and>
           (\<forall>w k. rel_list (mem st1) w k =
              (if k = lastParentsKey st
               then map_option (\<lambda>ys. ys @ copies (count_list xs w) ns)
                      (rel_list (mem st) w (lastParentsKey st))
               else if k = lastChildrenKey st
               then map_option (\<lambda>ys. ys @ copies (count_list ns w) xs)
                      (rel_list (mem st) w (lastChildrenKey st))
               else rel_list (mem st) w k))"
proof -
  obtain nb where nb: "bound hdl = ArrRef nb" "nb < length (arrs (mem st))"
      "ns = arrs (mem st) ! nb"
    using nodes by (auto simp: array_of_def split: val.splits if_splits)
  obtain xb where xb: "x = ArrRef xb" "xb < length (arrs (mem st))" "xs = arrs (mem st) ! xb"
    using given by (auto simp: array_of_def split: val.splits if_splits)
  have cl: "closed (mem st)" using nd by (rule no_dangling_closed)
  obtain h1 h2 where
      a1: "add (ArrRef xb) (lastParentsKey st) (ArrRef nb) (mem st) = Inr h1"
    and a2: "add (ArrRef nb) (lastChildrenKey st) (ArrRef xb) h1 = Inr h2"
    and r: "\<forall>w k. rel_list h2 w k =
              (if k = lastParentsKey st
               then map_option (\<lambda>ys. ys @ copies (count_list xs w) ns)
                      (rel_list (mem st) w (lastParentsKey st))
               else if k = lastChildrenKey st
               then map_option (\<lambda>ys. ys @ copies (count_list ns w) xs)
                      (rel_list (mem st) w (lastChildrenKey st))
               else rel_list (mem st) w k)"
    using add_both [OF cl nb(2) xb(2) _ _ ne] hp hc nb(3) xb(3) by blast
  have s1: "addChildren hdl x st = Inr (st\<lparr>mem := h2\<rparr>)"
    using a1 a2 nb(1) xb(1) by (simp add: addChildren_def toNodes_def)
  show ?thesis
  proof (intro exI conjI)
    show "addChildren hdl x st = Inr (st\<lparr>mem := h2\<rparr>)" by (rule s1)
    show "\<forall>w k. rel_list (mem (st\<lparr>mem := h2\<rparr>)) w k =
              (if k = lastParentsKey st
               then map_option (\<lambda>ys. ys @ copies (count_list xs w) ns)
                      (rel_list (mem st) w (lastParentsKey st))
               else if k = lastChildrenKey st
               then map_option (\<lambda>ys. ys @ copies (count_list ns w) xs)
                      (rel_list (mem st) w (lastChildrenKey st))
               else rel_list (mem st) w k)"
      using r by simp
  qed
qed

lemma addChildren_one_link:
  assumes nd: "no_dangling (mem st)"
      and nodes: "array_of (mem st) (bound hdl) = Some [a]"
      and given: "array_of (mem st) x = Some [b]"
      and hp: "rel_list (mem st) b (lastParentsKey st) = Some ps"
      and hc: "rel_list (mem st) a (lastChildrenKey st) = Some cs"
      and ne: "lastParentsKey st \<noteq> lastChildrenKey st"
  shows "\<exists>st1. addChildren hdl x st = Inr st1 \<and>
           rel_list (mem st1) b (lastParentsKey st) = Some (ps @ [a]) \<and>
           rel_list (mem st1) a (lastChildrenKey st) = Some (cs @ [b])"
proof -
  have hp': "\<forall>v\<in>set [b]. rel_list (mem st) v (lastParentsKey st) \<noteq> None"
    and hc': "\<forall>v\<in>set [a]. rel_list (mem st) v (lastChildrenKey st) \<noteq> None"
    using hp hc by simp_all
  obtain st1 where s1: "addChildren hdl x st = Inr st1"
    and r: "\<forall>w k. rel_list (mem st1) w k =
              (if k = lastParentsKey st
               then map_option (\<lambda>ys. ys @ copies (count_list [b] w) [a])
                      (rel_list (mem st) w (lastParentsKey st))
               else if k = lastChildrenKey st
               then map_option (\<lambda>ys. ys @ copies (count_list [a] w) [b])
                      (rel_list (mem st) w (lastChildrenKey st))
               else rel_list (mem st) w k)"
    using addChildren_links [OF nd nodes given hp' hc' ne] by blast
  have "rel_list (mem st1) b (lastParentsKey st) = Some (ps @ [a])"
    using r [rule_format, of b "lastParentsKey st"] hp by simp
  moreover have "rel_list (mem st1) a (lastChildrenKey st) = Some (cs @ [b])"
    using r [rule_format, of a "lastChildrenKey st"] hc ne by simp
  ultimately show ?thesis using s1 by blast
qed

subsection \<open>The round trip\<close>

lemma link_unlink_lists:
  assumes r1: "\<And>w k. R1 w k = (if k = pk then map_option (\<lambda>ys. ys @ copies (count_list xs w) ns) (R0 w pk) else R0 w k)"
      and r2: "\<And>w k. R2 w k = (if k = ck then map_option (\<lambda>ys. ys @ copies (count_list ns w) xs) (R1 w ck) else R1 w k)"
      and r3: "\<And>w k. R3 w k = (if k = pk then map_option (fold splice_out (copies (count_list xs w) ns)) (R2 w pk) else R2 w k)"
      and r4: "\<And>w k. R4 w k = (if k = ck then map_option (fold splice_out (copies (count_list ns w) xs)) (R3 w ck) else R3 w k)"
      and ys: "R0 w k = Some ys"
      and dp: "k = pk \<Longrightarrow> w \<in> set xs \<Longrightarrow> set ns \<inter> set ys = {}"
      and dc: "k = ck \<Longrightarrow> w \<in> set ns \<Longrightarrow> set xs \<inter> set ys = {}"
  shows "R4 w k = Some ys"
proof -
  have ip: "0 < count_list xs w \<longrightarrow> set ns \<inter> set ys = {}" if "k = pk"
    using dp that by (cases "w \<in> set xs") (auto simp: count_list_0_iff)
  have ic: "0 < count_list ns w \<longrightarrow> set xs \<inter> set ys = {}" if "k = ck"
    using dc that by (cases "w \<in> set ns") (auto simp: count_list_0_iff)
  consider "k = pk" "k = ck" | "k = pk" "k \<noteq> ck" | "k \<noteq> pk" "k = ck" | "k \<noteq> pk" "k \<noteq> ck"
    by blast
  then show ?thesis
  proof cases
    case 1
    have a: "R1 w k = Some (ys @ copies (count_list xs w) ns)"
      using r1 [of w k] 1 ys by simp
    have b: "R2 w k = Some (ys @ copies (count_list xs w) ns @ copies (count_list ns w) xs)"
      using r2 [of w k] 1 a by simp
    have c: "R3 w k = Some (ys @ copies (count_list ns w) xs)"
      using r3 [of w k] 1 b fold_splice_out_copies [OF ip [OF 1(1)]] by simp
    show ?thesis
      using r4 [of w k] 1 c fold_splice_out_copies_end [OF ic [OF 1(2)]] by simp
  next
    case 2
    have a: "R1 w k = Some (ys @ copies (count_list xs w) ns)"
      using r1 [of w k] 2 ys by simp
    have b: "R2 w k = Some (ys @ copies (count_list xs w) ns)"
      using r2 [of w k] 2 a by simp
    have c: "R3 w k = Some ys"
      using r3 [of w k] 2 b fold_splice_out_copies_end [OF ip [OF 2(1)]] by simp
    show ?thesis
      using r4 [of w k] 2 c by simp
  next
    case 3
    have a: "R1 w k = Some ys"
      using r1 [of w k] 3 ys by simp
    have b: "R2 w k = Some (ys @ copies (count_list ns w) xs)"
      using r2 [of w k] 3 a by simp
    have c: "R3 w k = Some (ys @ copies (count_list ns w) xs)"
      using r3 [of w k] 3 b by simp
    show ?thesis
      using r4 [of w k] 3 c fold_splice_out_copies_end [OF ic [OF 3(2)]] by simp
  next
    case 4
    then show ?thesis
      using r1 [of w k] r2 [of w k] r3 [of w k] r4 [of w k] ys by simp
  qed
qed

lemma add_then_remove:
  assumes cl: "closed h0" and n: "n < length (arrs h0)" and x: "x < length (arrs h0)"
      and hp: "\<forall>v\<in>set (arrs h0 ! x). rel_list h0 v pk \<noteq> None"
      and hc: "\<forall>v\<in>set (arrs h0 ! n). rel_list h0 v ck \<noteq> None"
      and fresh: "\<forall>v\<in>set (arrs h0 ! x). \<forall>a\<in>set (arrs h0 ! n).
                    a \<notin> set (the (rel_list h0 v pk)) \<and> v \<notin> set (the (rel_list h0 a ck))"
  shows "\<exists>h1 h2 h3 h4.
           add (ArrRef x) pk (ArrRef n) h0 = Inr h1 \<and>
           add (ArrRef n) ck (ArrRef x) h1 = Inr h2 \<and>
           remove (ArrRef x) pk (ArrRef n) h2 = Inr h3 \<and>
           remove (ArrRef n) ck (ArrRef x) h3 = Inr h4 \<and>
           (\<forall>w k. rel_list h0 w k \<noteq> None \<longrightarrow> rel_list h4 w k = rel_list h0 w k)"
proof -
  let ?xs = "arrs h0 ! x" and ?ns = "arrs h0 ! n" and ?n0 = "length (arrs h0)"
  have i0: "inv h0 h0" using cl by (rule closed_inv)
  obtain h1 where h1: "run_each (add_node pk (ArrRef n)) ?xs h0 = Inr h1" "inv h0 h1"
    and r1: "\<And>w k. rel_list h1 w k =
               (if k = pk then map_option (\<lambda>ys. ys @ copies (count_list ?xs w) ?ns) (rel_list h0 w pk)
                else rel_list h0 w k)"
    and f1: "\<And>w k. fresh_at ?n0 h0 w k \<or> (k = pk \<and> w \<in> set ?xs) \<Longrightarrow> fresh_at ?n0 h1 w k"
    using run_add_effect [OF i0 hp n] by blast
  have a1: "add (ArrRef x) pk (ArrRef n) h0 = Inr h1"
    using add_run_each [OF extends_refl x, of pk "ArrRef n"] h1(1) by simp
  have hc1: "\<forall>v\<in>set ?ns. rel_list h1 v ck \<noteq> None"
    using hc hp r1 by (auto split: if_splits)
  obtain h2 where h2: "run_each (add_node ck (ArrRef x)) ?ns h1 = Inr h2" "inv h0 h2"
    and r2: "\<And>w k. rel_list h2 w k =
               (if k = ck then map_option (\<lambda>ys. ys @ copies (count_list ?ns w) ?xs) (rel_list h1 w ck)
                else rel_list h1 w k)"
    and f2: "\<And>w k. fresh_at ?n0 h1 w k \<or> (k = ck \<and> w \<in> set ?ns) \<Longrightarrow> fresh_at ?n0 h2 w k"
    using run_add_effect [OF h1(2) hc1 x] by blast
  have e1: "extends h0 h1" using h1(2) by (simp add: inv_def)
  have a2: "add (ArrRef n) ck (ArrRef x) h1 = Inr h2"
    using add_run_each [OF e1 n, of ck "ArrRef x"] h2(1) by simp
  have fp2: "\<forall>v\<in>set ?xs. fresh_at ?n0 h2 v pk"
    using f1 f2 by blast
  have fc2: "\<forall>v\<in>set ?ns. fresh_at ?n0 h2 v ck"
    using f2 by blast
  obtain h3 where h3: "run_each (\<lambda>v. run_each (remove_one pk v) ?ns) ?xs h2 = Inr h3" "inv h0 h3"
      "objs h3 = objs h2"
    and r3: "\<And>w k. rel_list h3 w k =
               (if k = pk then map_option (fold splice_out (copies (count_list ?xs w) ?ns)) (rel_list h2 w pk)
                else rel_list h2 w k)"
    using run_remove_effect [OF h2(2) fp2, of ?ns] by blast
  have a3: "remove (ArrRef x) pk (ArrRef n) h2 = Inr h3"
    using remove_run_each [OF h2(2) x n fp2] h3(1) by simp
  have fc3: "\<forall>v\<in>set ?ns. fresh_at ?n0 h3 v ck"
    using fc2 fresh_at_objs [OF h3(3)] by simp
  obtain h4 where h4: "run_each (\<lambda>v. run_each (remove_one ck v) ?xs) ?ns h3 = Inr h4" "inv h0 h4"
    and r4: "\<And>w k. rel_list h4 w k =
               (if k = ck then map_option (fold splice_out (copies (count_list ?ns w) ?xs)) (rel_list h3 w ck)
                else rel_list h3 w k)"
    using run_remove_effect [OF h3(2) fc3, of ?xs] by blast
  have a4: "remove (ArrRef n) ck (ArrRef x) h3 = Inr h4"
    using remove_run_each [OF h3(2) n x fc3] h4(1) by simp
  have same: "rel_list h4 w k = rel_list h0 w k" if nn: "rel_list h0 w k \<noteq> None" for w k
  proof -
    obtain ys where ys: "rel_list h0 w k = Some ys" using nn by auto
    have "rel_list h4 w k = Some ys"
    proof (rule link_unlink_lists [where ?R0.0 = "rel_list h0" and ?R1.0 = "rel_list h1"
          and ?R2.0 = "rel_list h2" and ?R3.0 = "rel_list h3" and pk = pk and ck = ck
          and xs = ?xs and ns = ?ns])
      show "rel_list h0 w k = Some ys" by (rule ys)
      show "set ?ns \<inter> set ys = {}" if "k = pk" "w \<in> set ?xs"
        using fresh that ys by fastforce
      show "set ?xs \<inter> set ys = {}" if "k = ck" "w \<in> set ?ns"
        using fresh that ys by fastforce
    qed (rule r1 r2 r3 r4)+
    then show ?thesis using ys by simp
  qed
  show ?thesis
    using a1 a2 a3 a4 same by blast
qed

text \<open>
  C7.  Let the store have no dangling array reference, let every supplied node of the
  sequence \<open>X\<close> have a parents list and every bound node a children list, and let no
  bound node be among the parents of a supplied node nor a supplied node among the children
  of a bound node.  Then \<open>addChildren(X)\<close> followed by \<open>removeChildren(X)\<close> succeeds and
  every relation list of every node (under every key) has the contents, in the order, it
  had before the two calls.
\<close>

theorem add_then_remove_children_restores:
  assumes nd: "no_dangling (mem st)"
      and nodes: "array_of (mem st) (bound hdl) = Some ns"
      and given: "array_of (mem st) x = Some xs"
      and hp: "\<forall>v\<in>set xs. rel_list (mem st) v (lastParentsKey st) \<noteq> None"
      and hc: "\<forall>v\<in>set ns. rel_list (mem st) v (lastChildrenKey st) \<noteq> None"
      and unrelated: "\<forall>v\<in>set xs. \<forall>a\<in>set ns.
                        a \<notin> set (the (rel_list (mem st) v (lastParentsKey st))) \<and>
                        v \<notin> set (the (rel_list (mem st) a (lastChildrenKey st)))"
  shows "\<exists>st1 st2. addChildren hdl x st = Inr st1 \<and> removeChildren hdl x st1 = Inr st2 \<and>
           (\<forall>w k. rel_list (mem st) w k \<noteq> None
                     \<longrightarrow> rel_list (mem st2) w k = rel_list (mem st) w k)"
proof -
  obtain nb where nb: "bound hdl = ArrRef nb" "nb < length (arrs (mem st))"
      "ns = arrs (mem st) ! nb"
    using nodes by (auto simp: array_of_def split: val.splits if_splits)
  obtain xb where xb: "x = ArrRef xb" "xb < length (arrs (mem st))" "xs = arrs (mem st) ! xb"
    using given by (auto simp: array_of_def split: val.splits if_splits)
  have cl: "closed (mem st)" using nd by (rule no_dangling_closed)
  obtain h1 h2 h3 h4 where
      a1: "add (ArrRef xb) (lastParentsKey st) (ArrRef nb) (mem st) = Inr h1"
    and a2: "add (ArrRef nb) (lastChildrenKey st) (ArrRef xb) h1 = Inr h2"
    and a3: "remove (ArrRef xb) (lastParentsKey st) (ArrRef nb) h2 = Inr h3"
    and a4: "remove (ArrRef nb) (lastChildrenKey st) (ArrRef xb) h3 = Inr h4"
    and same: "\<forall>w k. rel_list (mem st) w k \<noteq> None \<longrightarrow> rel_list h4 w k = rel_list (mem st) w k"
    using add_then_remove [OF cl nb(2) xb(2), of "lastParentsKey st" "lastChildrenKey st"]
      hp hc unrelated nb(3) xb(3) by blast
  have s1: "addChildren hdl x st = Inr (st\<lparr>mem := h2\<rparr>)"
    using a1 a2 nb(1) xb(1) by (simp add: addChildren_def toNodes_def)
  have s2: "removeChildren hdl x (st\<lparr>mem := h2\<rparr>) = Inr (st\<lparr>mem := h4\<rparr>)"
    using a3 a4 nb(1) xb(1) by (simp add: removeChildren_def toNodes_def)
  show ?thesis
  proof (intro exI conjI)
    show "addChildren hdl x st = Inr (st\<lparr>mem := h2\<rparr>)" by (rule s1)
    show "removeChildren hdl x (st\<lparr>mem := h2\<rparr>) = Inr (st\<lparr>mem := h4\<rparr>)" by (rule s2)
    show "\<forall>w k. rel_list (mem st) w k \<noteq> None
            \<longrightarrow> rel_list (mem (st\<lparr>mem := h4\<rparr>)) w k = rel_list (mem st) w k"
      using same by simp
  qed
qed

theorem add_then_remove_children_restores_witness:
  "\<exists>st1 st2. addChildren \<lparr>bound = ArrRef 8\<rparr> (ArrRef 9) (initial family) = Inr st1 \<and>
      removeChildren \<lparr>bound = ArrRef 8\<rparr> (ArrRef 9) st1 = Inr st2 \<and>
      rel_list (mem st1) (ObjRef 0) ''children'' = Some [ObjRef 1, ObjRef 3] \<and>
      rel_list (mem st1) (ObjRef 3) ''parents'' = Some [ObjRef 0] \<and>
      rel_list (mem st2) (ObjRef 0) ''children'' = Some [ObjRef 1] \<and>
      rel_list (mem st2) (ObjRef 3) ''parents'' = Some []"
proof -
  have nd: "no_dangling (mem (initial family))"
    by (simp add: no_dangling_def initial_def family_def)
  have nodes: "array_of (mem (initial family)) (bound \<lparr>bound = ArrRef 8\<rparr>) = Some [ObjRef 0]"
    and given: "array_of (mem (initial family)) (ArrRef 9) = Some [ObjRef 3]"
    by (simp_all add: js_eval family_def)
  have hp: "\<forall>v\<in>set [ObjRef 3].
              rel_list (mem (initial family)) v (lastParentsKey (initial family)) \<noteq> None"
    and hc: "\<forall>v\<in>set [ObjRef 0].
              rel_list (mem (initial family)) v (lastChildrenKey (initial family)) \<noteq> None"
    and un: "\<forall>v\<in>set [ObjRef 3]. \<forall>a\<in>set [ObjRef 0].
               a \<notin> set (the (rel_list (mem (initial family)) v (lastParentsKey (initial family)))) \<and>
               v \<notin> set (the (rel_list (mem (initial family)) a (lastChildrenKey (initial family))))"
    by (simp_all add: js_eval family_def)
  obtain st1 st2 where
      s1: "addChildren \<lparr>bound = ArrRef 8\<rparr> (ArrRef 9) (initial family) = Inr st1"
    and s2: "removeChildren \<lparr>bound = ArrRef 8\<rparr> (ArrRef 9) st1 = Inr st2"
    and same: "\<forall>w k. rel_list (mem (initial family)) w k \<noteq> None
                 \<longrightarrow> rel_list (mem st2) w k = rel_list (mem (initial family)) w k"
    using add_then_remove_children_restores [OF nd nodes given hp hc un] by blast
  have c0: "rel_list (mem (initial family)) (ObjRef 0) ''children'' = Some [ObjRef 1]"
    and p0: "rel_list (mem (initial family)) (ObjRef 3) ''parents'' = Some []"
    by (simp_all add: js_eval family_def)
  have c: "rel_list (mem st2) (ObjRef 0) ''children'' = Some [ObjRef 1]"
    using same [rule_format, of "ObjRef 0" "''children''"] c0 by simp
  have p: "rel_list (mem st2) (ObjRef 3) ''parents'' = Some []"
    using same [rule_format, of "ObjRef 3" "''parents''"] p0 by simp
  have mid: "rel_list (mem st1) (ObjRef 0) ''children'' = Some [ObjRef 1, ObjRef 3] \<and>
             rel_list (mem st1) (ObjRef 3) ''parents'' = Some [ObjRef 0]"
    using s1 by (auto simp: js_eval family_def)
  show ?thesis
    using s1 s2 c p mid by blast
qed

end
